theory Spec2Isabelle
  imports Complex_Main
begin

section \<open>Numbers\<close>

text \<open>
  JavaScript numbers are binary64 floating-point numbers. They are modelled as reals, and
  the arithmetic of the sources (\<open>+\<close>, \<open>-\<close>, \<open>*\<close>, \<open>/\<close>, \<open>Math.min\<close>, \<open>Math.max\<close>,
  \<open>Math.round\<close>, \<open>Math.ceil\<close>, \<open>Math.floor\<close>) is taken without rounding error. Order,
  \<open>min\<close>, \<open>max\<close> and the monotonicity of each operation are the same in binary64; the
  exact value of a sum, product or quotient is not. The general theorems below rest on the
  former only, and the concrete evaluations use inputs on which binary64 arithmetic gives
  the values shown. A value that is not a finite number (\<open>undefined\<close>, \<open>null\<close>, \<open>NaN\<close>,
  an infinity) is \<open>None\<close> wherever the source tests for it.
\<close>

section \<open>Frame job planner\<close>

text \<open>
  \<open>renderCaptionOverlays\<close> (src/renderer/overlay-renderer.ts, with \<open>CONCURRENCY = 4\<close>) and
  \<open>captureFrames\<close> (with the parameter \<open>concurrency\<close>) compute the same chunks:

  \<^verbatim>\<open>const framesPerWorker = Math.ceil(totalFrames / CONCURRENCY);
  const chunks = [];
  for (let i = 0; i < CONCURRENCY; i++) {
    const start = i * framesPerWorker;
    const end = Math.min((i + 1) * framesPerWorker, totalFrames);
    if (start < totalFrames) { chunks.push({ id: i, start, end }); }
  }\<close>
\<close>

record chunk =
  chunk_id :: nat
  chunk_start :: nat
  chunk_end :: nat

definition framesPerWorker :: "nat \<Rightarrow> nat \<Rightarrow> nat" where
  "framesPerWorker totalFrames concurrency = nat \<lceil>real totalFrames / real concurrency\<rceil>"

function chunkLoop :: "nat \<Rightarrow> nat \<Rightarrow> nat \<Rightarrow> nat \<Rightarrow> chunk list \<Rightarrow> chunk list" where
  "chunkLoop i concurrency fpw totalFrames chunks =
     (if i < concurrency then
        (let start = i * fpw;
             end' = min ((i + 1) * fpw) totalFrames
         in chunkLoop (i + 1) concurrency fpw totalFrames
              (if start < totalFrames
               then chunks @ [\<lparr>chunk_id = i, chunk_start = start, chunk_end = end'\<rparr>]
               else chunks))
      else chunks)"
  by pat_completeness auto
termination
  by (relation "measure (\<lambda>(i, concurrency, fpw, totalFrames, chunks). concurrency - i)") auto

definition planChunks :: "nat \<Rightarrow> nat \<Rightarrow> chunk list" where
  "planChunks totalFrames concurrency =
     chunkLoop 0 concurrency (framesPerWorker totalFrames concurrency) totalFrames []"

text \<open>The frame indices a worker visits: \<open>for (let i = chunk.start; i < chunk.end; i++)\<close>.\<close>

definition chunk_frames :: "chunk \<Rightarrow> nat list" where
  "chunk_frames c = [chunk_start c ..< chunk_end c]"

text \<open>The loop, iteration by iteration: what iteration \<open>i\<close> pushes, and the chunks after \<open>n\<close> iterations.\<close>

definition mk_chunk :: "nat \<Rightarrow> nat \<Rightarrow> nat \<Rightarrow> chunk" where
  "mk_chunk fpw totalFrames i =
     \<lparr>chunk_id = i, chunk_start = i * fpw, chunk_end = min ((i + 1) * fpw) totalFrames\<rparr>"

definition iter_chunks :: "nat \<Rightarrow> nat \<Rightarrow> nat \<Rightarrow> chunk list" where
  "iter_chunks fpw totalFrames i =
     (if i * fpw < totalFrames then [mk_chunk fpw totalFrames i] else [])"

definition chunks_upto :: "nat \<Rightarrow> nat \<Rightarrow> nat \<Rightarrow> chunk list" where
  "chunks_upto fpw totalFrames n = concat (map (iter_chunks fpw totalFrames) [0 ..< n])"

declare chunkLoop.simps [simp del]

section \<open>Transcript segmenter (src/transcription.ts)\<close>

subsection \<open>Helpers and constants\<close>

text \<open>\<open>const clamp = (value, min, max) => Math.min(Math.max(value, min), max)\<close>\<close>

definition clamp :: "real \<Rightarrow> real \<Rightarrow> real \<Rightarrow> real" where
  "clamp v mn mx = min (max v mn) mx"

text \<open>
  \<open>roundTo(value, precision = 2)\<close> is \<open>Math.round(value * factor) / factor\<close> with
  \<open>factor = 10 ** precision\<close>; \<open>Math.round\<close> rounds a half towards plus infinity, which is
  \<open>floor (x + 1/2)\<close>.
\<close>

definition roundTo :: "real \<Rightarrow> nat \<Rightarrow> real" where
  "roundTo v precision = (let factor = 10 ^ precision in of_int \<lfloor>v * factor + 1 / 2\<rfloor> / factor)"

definition MIN_WORD_DURATION :: real where
  "MIN_WORD_DURATION = 0.05"

definition MIN_SEGMENT_DURATION :: real where
  "MIN_SEGMENT_DURATION = 0.2"

subsection \<open>Data\<close>

text \<open>
  A word and a segment as they arrive (a timestamp that is not a finite number is \<open>None\<close>),
  and as the segmenter returns them (every timestamp finite).
\<close>

record RawWord =
  rw_word :: string
  rw_start :: "real option"
  rw_end :: "real option"

record Word =
  w_word :: string
  w_start :: real
  w_end :: real

record WordGroup =
  g_words :: "Word list"
  g_start :: real
  g_end :: real
  g_text :: string

record RawSegment =
  rs_text :: string
  rs_start :: "real option"
  rs_end :: "real option"
  rs_words :: "RawWord list option"

record Segment =
  seg_text :: string
  seg_start :: real
  seg_end :: real
  seg_words :: "Word list option"



subsection \<open>groupWordsByTiming\<close>

text \<open>A difference of two numbers of which either may be missing is \<open>NaN\<close>, and every
  comparison with \<open>NaN\<close> is false.\<close>

definition js_sub :: "real option \<Rightarrow> real option \<Rightarrow> real option" where
  "js_sub a b = (case (a, b) of (Some x, Some y) \<Rightarrow> Some (x - y) | _ \<Rightarrow> None)"

definition js_gt :: "real option \<Rightarrow> real \<Rightarrow> bool" where
  "js_gt a b = (case a of Some x \<Rightarrow> x > b | None \<Rightarrow> False)"

text \<open>
  \<^verbatim>\<open>let avgGap = 0; let gapCount = 0;
  for (let i = 0; i < Math.min(words.length - 1, 10); i++) {
    const gap = words[i + 1].start - words[i].end;
    if (gap > 0) { avgGap += gap; gapCount++; }
  }
  avgGap = gapCount > 0 ? avgGap / gapCount : 0.1;\<close>
\<close>

definition averageGap :: "RawWord list \<Rightarrow> real" where
  "averageGap words =
     (let (avgGap, gapCount) =
        foldl (\<lambda>(avgGap, gapCount) i.
                 (case js_sub (rw_start (words ! (i + 1))) (rw_end (words ! i)) of
                    Some gap \<Rightarrow> if gap > 0 then (avgGap + gap, gapCount + 1) else (avgGap, gapCount)
                  | None \<Rightarrow> (avgGap, gapCount)))
              (0, 0 :: nat) [0 ..< min (length words - 1) 10]
      in if gapCount > 0 then avgGap / real gapCount else 0.1)"

definition FAST_SPEECH_THRESHOLD :: real where "FAST_SPEECH_THRESHOLD = 0.06"
definition NORMAL_SPEECH_THRESHOLD :: real where "NORMAL_SPEECH_THRESHOLD = 0.12"
definition SLOW_SPEECH_THRESHOLD :: real where "SLOW_SPEECH_THRESHOLD = 0.2"
definition MAX_GROUP_DURATION :: real where "MAX_GROUP_DURATION = 0.6"
definition MAX_WORDS_PER_GROUP :: nat where "MAX_WORDS_PER_GROUP = 4"
definition MIN_WORDS_PER_GROUP :: nat where "MIN_WORDS_PER_GROUP = 1"

definition timingThreshold :: "real \<Rightarrow> real" where
  "timingThreshold avgGap =
     (if avgGap < 0.05 then FAST_SPEECH_THRESHOLD
      else if avgGap < 0.1 then FAST_SPEECH_THRESHOLD + 0.02
      else if avgGap > 0.25 then SLOW_SPEECH_THRESHOLD
      else NORMAL_SPEECH_THRESHOLD)"

text \<open>
  The sanitised copy of a word. \<open>word.start ?? 0\<close> and the \<open>Number.isFinite\<close> test both
  give 0 for a start that is missing or not finite; a missing end takes \<open>roundedStart\<close>
  and is then extended by the minimum duration.
\<close>

definition roundedWord :: "RawWord \<Rightarrow> Word" where
  "roundedWord word =
     (let roundedStart = (case rw_start word of Some s \<Rightarrow> roundTo s 2 | None \<Rightarrow> 0);
          roundedEnd = (case rw_end word of Some e \<Rightarrow> roundTo e 2 | None \<Rightarrow> roundTo roundedStart 2);
          roundedEnd = (if roundedEnd - roundedStart < MIN_WORD_DURATION
                        then roundedStart + MIN_WORD_DURATION else roundedEnd)
      in \<lparr>w_word = rw_word word, w_start = roundedStart, w_end = roundedEnd\<rparr>)"

text \<open>\<open>/[.!?;:]/.test(w)\<close> and \<open>/,/.test(w)\<close>\<close>

definition hasPunctuation :: "string \<Rightarrow> bool" where
  "hasPunctuation w = list_ex (\<lambda>c. c \<in> set ''.!?;:'') w"

definition hasComma :: "string \<Rightarrow> bool" where
  "hasComma w = list_ex (\<lambda>c. c = CHR '','') w"

text \<open>\<open>xs.join(" ")\<close>\<close>

fun join_space :: "string list \<Rightarrow> string" where
  "join_space [] = []"
| "join_space [x] = x"
| "join_space (x # y # ys) = x @ '' '' @ join_space (y # ys)"

text \<open>The group pushed for a non-empty \<open>currentGroup\<close>.\<close>

definition makeGroup :: "Word list \<Rightarrow> WordGroup" where
  "makeGroup currentGroup =
     \<lparr>g_words = currentGroup,
      g_start = w_start (hd currentGroup),
      g_end = max (w_end (last currentGroup)) (w_start (hd currentGroup) + MIN_SEGMENT_DURATION),
      g_text = join_space (map w_word currentGroup)\<rparr>"

text \<open>
  The main loop, on the words from index \<open>i\<close> on, with \<open>currentGroup\<close> and \<open>groups\<close> as
  they stand; \<open>nextWord\<close> is the head of the remaining words if there is one.
\<close>

fun groupLoop :: "real \<Rightarrow> RawWord list \<Rightarrow> Word list \<Rightarrow> WordGroup list \<Rightarrow> WordGroup list" where
  "groupLoop threshold [] currentGroup groups =
     (if length currentGroup > 0 then groups @ [makeGroup currentGroup] else groups)"
| "groupLoop threshold (word # rest) currentGroup groups =
     (let rounded = roundedWord word;
          currentGroup = currentGroup @ [rounded];
          forceEndGroup = hasPunctuation (w_word rounded);
          shouldEndGroup = (\<not> hasPunctuation (w_word rounded) \<and> hasComma (w_word rounded)
                            \<and> length currentGroup \<ge> 2);
          shouldEndGroup = (shouldEndGroup \<or>
             (length currentGroup > 0 \<and>
              w_end rounded - w_start (hd currentGroup) \<ge> MAX_GROUP_DURATION));
          shouldEndGroup = (shouldEndGroup \<or> length currentGroup \<ge> MAX_WORDS_PER_GROUP);
          (forceEndGroup, shouldEndGroup) =
             (case rest of
                nextWord # _ \<Rightarrow>
                  (let gap = js_sub (rw_start nextWord) (rw_end word)
                   in if js_gt gap (threshold * 2) then (True, shouldEndGroup)
                      else if js_gt gap threshold \<and> length currentGroup \<ge> MIN_WORDS_PER_GROUP
                      then (forceEndGroup, True)
                      else (forceEndGroup, shouldEndGroup))
              | [] \<Rightarrow> (True, shouldEndGroup))
      in if (forceEndGroup \<or> shouldEndGroup) \<and> length currentGroup > 0
         then groupLoop threshold rest [] (groups @ [makeGroup currentGroup])
         else groupLoop threshold rest currentGroup groups)"

definition groupWordsByTiming :: "RawWord list \<Rightarrow> WordGroup list" where
  "groupWordsByTiming words =
     (if length words = 0 then []
      else groupLoop (timingThreshold (averageGap words)) words [] [])"

subsection \<open>normalizeSegments\<close>

text \<open>
  \<^verbatim>\<open>const safeDuration = Number.isFinite(totalDuration || NaN) ? totalDuration : undefined;\<close>
  A total duration of 0 is falsy and counts as absent.
\<close>

definition safeDuration :: "real option \<Rightarrow> real option" where
  "safeDuration totalDuration =
     (case totalDuration of Some d \<Rightarrow> if d = 0 then None else Some d | None \<Rightarrow> None)"

definition sanitizeWord :: "real \<Rightarrow> RawWord \<Rightarrow> Word" where
  "sanitizeWord start word =
     (let wordStart = (case rw_start word of Some s \<Rightarrow> s | None \<Rightarrow> start);
          wordEnd = (case rw_end word of Some e \<Rightarrow> e | None \<Rightarrow> wordStart);
          wordEnd = (if wordEnd - wordStart < MIN_WORD_DURATION
                     then wordStart + MIN_WORD_DURATION else wordEnd)
      in \<lparr>w_word = rw_word word, w_start = wordStart, w_end = wordEnd\<rparr>)"

definition sanitizeSegment :: "RawSegment \<Rightarrow> Segment" where
  "sanitizeSegment segment =
     (let start = (case rs_start segment of Some s \<Rightarrow> s | None \<Rightarrow> 0);
          end' = (case rs_end segment of Some e \<Rightarrow> e | None \<Rightarrow> start);
          end' = (if end' - start < MIN_SEGMENT_DURATION then start + MIN_SEGMENT_DURATION else end')
      in \<lparr>seg_text = rs_text segment, seg_start = start, seg_end = end',
          seg_words = map_option (map (sanitizeWord start)) (rs_words segment)\<rparr>)"

text \<open>
  \<open>.sort((a, b) => a.start - b.start)\<close>: \<open>Array.prototype.sort\<close> is stable, as is the
  insertion sort \<open>sort_key\<close>.
\<close>

definition sanitized :: "RawSegment list \<Rightarrow> Segment list" where
  "sanitized segments = sort_key seg_start (map sanitizeSegment segments)"

text \<open>
  The words of one segment, bounded by its \<open>start\<close> and \<open>end\<close> (the values before rounding):
  \<open>.map((word, wordIndex, arr) => ...)\<close> followed by \<open>.filter((word) => word.start < end)\<close>.
\<close>

definition boundWord :: "real \<Rightarrow> real \<Rightarrow> bool \<Rightarrow> Word \<Rightarrow> Word" where
  "boundWord start end' isLast word =
     (let wordStart = clamp (w_start word) start end';
          wordEnd = clamp (w_end word) (wordStart + MIN_WORD_DURATION) end';
          wordEnd = (if wordEnd - wordStart < MIN_WORD_DURATION
                     then min end' (wordStart + MIN_WORD_DURATION) else wordEnd);
          wordEnd = (if isLast then end' else wordEnd)
      in word\<lparr>w_start := roundTo wordStart 2, w_end := roundTo wordEnd 2\<rparr>)"

definition boundedWords :: "real \<Rightarrow> real \<Rightarrow> Word list \<Rightarrow> Word list" where
  "boundedWords start end' arr =
     filter (\<lambda>word. w_start word < end')
       (map (\<lambda>(wordIndex, word). boundWord start end' (wordIndex = length arr - 1) word)
            (enumerate 0 arr))"

text \<open>
  The sweep \<open>sanitized.map((segment, index) => ...)\<close> with the variable \<open>cursor\<close>, on the
  segments from \<open>index\<close> on; \<open>sanitized[index + 1]\<close> is the head of the rest.
\<close>

fun sweep :: "real option \<Rightarrow> real \<Rightarrow> Segment list \<Rightarrow> Segment list" where
  "sweep duration cursor [] = []"
| "sweep duration cursor (segment # rest) =
     (let start = max (seg_start segment) cursor;
          end' = max (seg_end segment) (start + MIN_SEGMENT_DURATION);
          end' = (case rest of
                    next # _ \<Rightarrow> if seg_start next > start then min end' (seg_start next) else end'
                  | [] \<Rightarrow> end');
          start = (case duration of Some d \<Rightarrow> clamp start 0 d | None \<Rightarrow> start);
          end' = (case duration of
                    Some d \<Rightarrow> clamp end' (start + MIN_SEGMENT_DURATION) d
                  | None \<Rightarrow> end')
      in segment\<lparr>seg_start := roundTo start 2, seg_end := roundTo end' 2,
                  seg_words := map_option (boundedWords start end') (seg_words segment)\<rparr>
         # sweep duration end' rest)"

declare sweep.simps(2) [simp del]

definition normalizeSegments :: "RawSegment list \<Rightarrow> real option \<Rightarrow> Segment list" where
  "normalizeSegments segments totalDuration =
     sweep (safeDuration totalDuration) 0 (sanitized segments)"

text \<open>
  For the analysis: the values of \<open>start\<close> and \<open>end\<close> for one segment of the sweep, before
  they are rounded (\<open>cursor\<close> becomes this \<open>end\<close>).
\<close>

definition sweep_start :: "real option \<Rightarrow> real \<Rightarrow> Segment \<Rightarrow> real" where
  "sweep_start duration cursor segment =
     (let start = max (seg_start segment) cursor
      in case duration of Some d \<Rightarrow> clamp start 0 d | None \<Rightarrow> start)"

definition sweep_end :: "real option \<Rightarrow> real \<Rightarrow> Segment \<Rightarrow> Segment list \<Rightarrow> real" where
  "sweep_end duration cursor segment rest =
     (let start = max (seg_start segment) cursor;
          end' = max (seg_end segment) (start + MIN_SEGMENT_DURATION);
          end' = (case rest of
                    next # _ \<Rightarrow> if seg_start next > start then min end' (seg_start next) else end'
                  | [] \<Rightarrow> end')
      in case duration of
           Some d \<Rightarrow> clamp end' (clamp start 0 d + MIN_SEGMENT_DURATION) d
         | None \<Rightarrow> end')"



section \<open>Word animation state in the two renderers\<close>

text \<open>
  The timing of one word as the renderers read it: the DOM renderer from the data attributes
  of the word's span (\<open>states.activeStart\<close>, \<open>states.activeEnd\<close>, \<open>states.appear\<close>,
  \<open>states.fade\<close>), the canvas renderer from \<open>w.start\<close> and \<open>w.end\<close>.
\<close>

record WordTiming =
  wt_start :: real
  wt_end :: real
  wt_appear :: real
  wt_fade :: real

definition TIMING_BUFFER :: real where
  "TIMING_BUFFER = 0.05"

text \<open>
  \<open>window.updateCaptions\<close> (src/renderer/overlay-renderer.ts), for one word of a displayed
  caption; the result is \<open>(opacity, fontWeight)\<close>:

  \<^verbatim>\<open>const isActive = adjustedTime >= wordStart && adjustedTime <= wordEnd;
  const hasAppeared = adjustedTime >= wordStart;
  const isAboutToAppear = adjustedTime >= (wordStart - TIMING_BUFFER) && adjustedTime < wordStart;
  let opacity = 0, fontWeight = 400;
  if (isActive) { opacity = 1; fontWeight = 700; }
  else if (isAboutToAppear) { opacity = 0.5; fontWeight = 500; }
  else if (hasAppeared && adjustedTime <= fade) { opacity = 0.7; fontWeight = 600; }
  else if (adjustedTime < wordStart) { opacity = 0.3; fontWeight = 400; }\<close>
\<close>

definition domWordStyle :: "real \<Rightarrow> WordTiming \<Rightarrow> real \<times> nat" where
  "domWordStyle currentTime w =
     (let adjustedTime = currentTime + TIMING_BUFFER;
          isActive = (adjustedTime \<ge> wt_start w \<and> adjustedTime \<le> wt_end w);
          hasAppeared = (adjustedTime \<ge> wt_start w);
          isAboutToAppear = (adjustedTime \<ge> wt_start w - TIMING_BUFFER \<and> adjustedTime < wt_start w)
      in if isActive then (1, 700)
         else if isAboutToAppear then (0.5, 500)
         else if hasAppeared \<and> adjustedTime \<le> wt_fade w then (0.7, 600)
         else if adjustedTime < wt_start w then (0.3, 400)
         else (0, 400))"

text \<open>
  \<open>renderFrame\<close> (lib/serverRenderFrame.js), for one word of the caption it draws:

  \<^verbatim>\<open>const buffer = 0.05;
  const t = currentTime + buffer;
  const active = t >= w.start && t <= w.end;
  const appeared = t >= w.start;
  const aboutTo = t >= w.start - buffer && t < w.start;
  if (active) { opacity = 1; weight = 700; }
  else if (aboutTo) { opacity = 0.5; weight = 500; }
  else if (appeared) { opacity = 0.7; weight = 600; }
  else { opacity = 0.3; weight = 400; }\<close>
\<close>

definition canvasWordStyle :: "real \<Rightarrow> WordTiming \<Rightarrow> real \<times> nat" where
  "canvasWordStyle currentTime w =
     (let buffer = 0.05;
          t = currentTime + buffer;
          active = (t \<ge> wt_start w \<and> t \<le> wt_end w);
          appeared = (t \<ge> wt_start w);
          aboutTo = (t \<ge> wt_start w - buffer \<and> t < wt_start w)
      in if active then (1, 700)
         else if aboutTo then (0.5, 500)
         else if appeared then (0.7, 600)
         else (0.3, 400))"

section \<open>The DOM overlay renderer\<close>

text \<open>
  The caption elements that the page script builds from \<open>PAYLOAD.subtitles\<close>: one
  \<open>div.caption\<close> per subtitle, carrying \<open>data-start\<close> and \<open>data-end\<close>, with one
  \<open>span.word\<close> per word when the subtitle has words. The style sheet gives
  \<open>display: none\<close> to every caption; a span has no inline opacity or weight until
  \<open>updateCaptions\<close> sets them.
\<close>

record CaptionExportWord =
  cw_word :: string
  cw_states :: WordTiming

record CaptionExportSubtitle =
  cs_id :: string
  cs_text :: string
  cs_start :: real
  cs_end :: real
  cs_words :: "CaptionExportWord list option"

record WordSpan =
  span_text :: string
  span_data :: WordTiming
  span_style :: "(real \<times> nat) option"

record CaptionDiv =
  div_id :: string
  div_start :: real
  div_end :: real
  div_words :: "WordSpan list"
  div_text :: string
  div_display :: bool

definition buildCaption :: "CaptionExportSubtitle \<Rightarrow> CaptionDiv" where
  "buildCaption subtitle =
     \<lparr>div_id = cs_id subtitle, div_start = cs_start subtitle, div_end = cs_end subtitle,
      div_words = (case cs_words subtitle of
                     Some ws \<Rightarrow> map (\<lambda>word. \<lparr>span_text = cw_word word, span_data = cw_states word,
                                            span_style = None\<rparr>) ws
                   | None \<Rightarrow> []),
      div_text = (case cs_words subtitle of
                    Some ws \<Rightarrow> if length ws > 0 then [] else cs_text subtitle
                  | None \<Rightarrow> cs_text subtitle),
      div_display = False\<rparr>"

definition buildOverlay :: "CaptionExportSubtitle list \<Rightarrow> CaptionDiv list" where
  "buildOverlay subtitles = map buildCaption subtitles"

text \<open>
  \<^verbatim>\<open>window.updateCaptions = function(currentTime) {
    const TIMING_BUFFER = 0.05;
    const adjustedTime = currentTime + TIMING_BUFFER;
    document.querySelectorAll('.caption').forEach(caption => {
      const start = parseFloat(caption.dataset.start);
      const end = parseFloat(caption.dataset.end);
      if (adjustedTime >= start && adjustedTime <= end) {
        caption.style.display = 'block';
        caption.querySelectorAll('.word').forEach(word => { ... });
      } else {
        caption.style.display = 'none';
      }
    });
  };\<close>
\<close>

definition updateCaption :: "real \<Rightarrow> CaptionDiv \<Rightarrow> CaptionDiv" where
  "updateCaption currentTime caption =
     (let adjustedTime = currentTime + TIMING_BUFFER
      in if adjustedTime \<ge> div_start caption \<and> adjustedTime \<le> div_end caption
         then caption\<lparr>div_display := True,
                div_words := map (\<lambda>word. word\<lparr>span_style :=
                                     Some (domWordStyle currentTime (span_data word))\<rparr>)
                                 (div_words caption)\<rparr>
         else caption\<lparr>div_display := False\<rparr>)"

definition updateCaptions :: "real \<Rightarrow> CaptionDiv list \<Rightarrow> CaptionDiv list" where
  "updateCaptions currentTime overlay = map (updateCaption currentTime) overlay"

text \<open>
  The time at which \<open>renderCaptionOverlays\<close> renders frame \<open>i\<close>:
  \<open>const frameInterval = 1 / fps; ... const currentTime = i * frameInterval;\<close>
\<close>

definition overlayFrameTime :: "real \<Rightarrow> nat \<Rightarrow> real" where
  "overlayFrameTime fps i = real i * (1 / fps)"

section \<open>Frame numbering in extraction and composition\<close>

text \<open>
  \<open>extractVideoFrames\<close> runs
  \<open>ffmpeg -i video -vf fps=<fps> -q:v 2 -start_number 0 video-frame-%06d.jpg\<close>: the
  \<open>fps\<close> filter emits frame \<open>j\<close> for the time \<open>j / fps\<close>, and the image writer names the
  \<open>j\<close>-th frame it receives with the number \<open>start_number + j\<close>.
\<close>

definition extractStartNumber :: nat where
  "extractStartNumber = 0"

definition videoFrameFile :: "nat \<Rightarrow> nat" where
  "videoFrameFile j = extractStartNumber + j"

definition videoFileTimestamp :: "real \<Rightarrow> nat \<Rightarrow> nat \<Rightarrow> real option" where
  "videoFileTimestamp fps totalFrames n =
     (if extractStartNumber \<le> n \<and> n < extractStartNumber + totalFrames
      then Some (real (n - extractStartNumber) / fps) else None)"

text \<open>
  \<open>renderCaptionOverlays\<close> writes the overlay of frame \<open>i\<close>, rendered for the time
  \<open>i * (1 / fps)\<close>, to \<open>overlay-<i padded to 6 digits>.png\<close>.
\<close>

definition overlayFrameFile :: "nat \<Rightarrow> nat" where
  "overlayFrameFile i = i"

text \<open>
  \<open>composeFinalVideo\<close> runs
  \<open>ffmpeg -framerate <fps> -start_number 1 -i video-frame-%06d.jpg
          -framerate <fps> -start_number 0 -i overlay-%06d.png ...
          -filter_complex "[0:v][1:v]overlay=0:0" ...\<close>:
  the \<open>k\<close>-th frame of an image sequence input is the file numbered \<open>start_number + k\<close>, and
  the overlay filter puts the \<open>k\<close>-th frame of the second input on the \<open>k\<close>-th frame of the
  first.
\<close>

definition composeVideoStartNumber :: nat where
  "composeVideoStartNumber = 1"

definition composeOverlayStartNumber :: nat where
  "composeOverlayStartNumber = 0"

definition composedVideoFile :: "nat \<Rightarrow> nat" where
  "composedVideoFile k = composeVideoStartNumber + k"

definition composedOverlayFile :: "nat \<Rightarrow> nat" where
  "composedOverlayFile k = composeOverlayStartNumber + k"

text \<open>
  For the overlay frame \<open>i\<close>: the position \<open>k\<close> at which the compositor reads its file, and
  the timestamp of the video frame the compositor reads at that position (\<open>None\<close> when
  there is no such file).
\<close>

definition videoTimestampUnderOverlay :: "real \<Rightarrow> nat \<Rightarrow> nat \<Rightarrow> real option" where
  "videoTimestampUnderOverlay fps totalFrames i =
     (if composeOverlayStartNumber \<le> overlayFrameFile i
      then videoFileTimestamp fps totalFrames
             (composedVideoFile (overlayFrameFile i - composeOverlayStartNumber))
      else None)"

section \<open>Caption visibility model (lib/getVisibleSubtitles.js)\<close>

text \<open>
  A subtitle as the canvas renderer receives it; its words carry \<open>word\<close>, \<open>start\<close> and
  \<open>end\<close>. A candidate is the object the \<open>map\<close> callback returns. \<open>earliestStart\<close> starts
  as \<open>Infinity\<close> and \<open>latestEnd\<close> as \<open>-Infinity\<close>: these two values are \<open>None\<close>.
\<close>

record Subtitle =
  sub_text :: string
  sub_start :: real
  sub_end :: real
  sub_words :: "Word list option"

record Candidate =
  c_subtitle :: Subtitle
  c_score :: int
  c_hasActiveWord :: bool
  c_activeWordCount :: nat
  c_earliestStart :: "real option"
  c_latestEnd :: "real option"

text \<open>\<open>Math.min(earliestStart, word.start)\<close> and \<open>Math.max(latestEnd, word.end)\<close>\<close>

definition minStart :: "real option \<Rightarrow> real \<Rightarrow> real option" where
  "minStart earliestStart x = (case earliestStart of None \<Rightarrow> Some x | Some e \<Rightarrow> Some (min e x))"

definition maxEnd :: "real option \<Rightarrow> real \<Rightarrow> real option" where
  "maxEnd latestEnd x = (case latestEnd of None \<Rightarrow> Some x | Some e \<Rightarrow> Some (max e x))"

text \<open>The body of \<open>sub.words.forEach\<close>, on the variables of the enclosing callback.\<close>

definition wordStep :: "real \<Rightarrow> Candidate \<Rightarrow> Word \<Rightarrow> Candidate" where
  "wordStep adjustedTime acc word =
     (let isActive = (adjustedTime \<ge> w_start word \<and> adjustedTime \<le> w_end word);
          hasAppeared = (adjustedTime \<ge> w_start word);
          isAboutToAppear = (adjustedTime \<ge> w_start word - TIMING_BUFFER \<and> adjustedTime < w_start word);
          acc = (if isActive
                 then acc\<lparr>c_hasActiveWord := True, c_activeWordCount := c_activeWordCount acc + 1,
                          c_score := c_score acc + 10\<rparr>
                 else if isAboutToAppear then acc\<lparr>c_score := c_score acc + 5\<rparr>
                 else if hasAppeared
                 then (let timeSinceEnd = adjustedTime - w_end word
                       in if timeSinceEnd \<le> 0.1 then acc\<lparr>c_score := c_score acc + 2\<rparr> else acc)
                 else acc)
      in acc\<lparr>c_earliestStart := minStart (c_earliestStart acc) (w_start word),
              c_latestEnd := maxEnd (c_latestEnd acc) (w_end word)\<rparr>)"

definition initialCandidate :: "Subtitle \<Rightarrow> Candidate" where
  "initialCandidate sub =
     \<lparr>c_subtitle = sub, c_score = 0, c_hasActiveWord = False, c_activeWordCount = 0,
      c_earliestStart = None, c_latestEnd = None\<rparr>"

text \<open>The \<open>map\<close> callback. A comparison with an infinity that the source makes is
  written out: nothing is at or after \<open>Infinity - 0.05\<close>, nothing at or before
  \<open>-Infinity + 0.1\<close>.\<close>

definition candidate :: "real \<Rightarrow> Subtitle \<Rightarrow> Candidate" where
  "candidate adjustedTime sub =
     (case sub_words sub of
        Some (w # ws) \<Rightarrow>
          (let acc = foldl (wordStep adjustedTime) (initialCandidate sub) (w # ws);
               isWithinSubtitleRange =
                 ((case c_earliestStart acc of Some e \<Rightarrow> adjustedTime \<ge> e - TIMING_BUFFER
                   | None \<Rightarrow> False) \<and>
                  (case c_latestEnd acc of Some l \<Rightarrow> adjustedTime \<le> l + 0.1 | None \<Rightarrow> False))
           in if \<not> isWithinSubtitleRange then acc\<lparr>c_score := 0\<rparr>
              else (let acc = (if c_hasActiveWord acc then acc\<lparr>c_score := c_score acc + 100\<rparr>
                               else acc)
                    in case c_earliestStart acc of
                         Some e \<Rightarrow>
                           (let timeSinceStart = adjustedTime - e
                            in if timeSinceStart \<ge> - TIMING_BUFFER \<and> timeSinceStart < 0.5
                               then acc\<lparr>c_score := c_score acc + 20\<rparr> else acc)
                       | None \<Rightarrow> acc))
      | _ \<Rightarrow>
          (let isInRange = (adjustedTime \<ge> sub_start sub \<and> adjustedTime \<le> sub_end sub)
           in if isInRange
              then (initialCandidate sub)\<lparr>c_score := 50, c_hasActiveWord := True,
                     c_earliestStart := Some (sub_start sub), c_latestEnd := Some (sub_end sub)\<rparr>
              else (let isAboutToStart = (adjustedTime \<ge> sub_start sub - TIMING_BUFFER
                                          \<and> adjustedTime < sub_start sub)
                    in if isAboutToStart
                       then (initialCandidate sub)\<lparr>c_score := 10,
                              c_earliestStart := Some (sub_start sub),
                              c_latestEnd := Some (sub_end sub)\<rparr>
                       else initialCandidate sub)))"

text \<open>
  The comparator of \<open>.sort\<close>, reduced to the sign of the number it returns (\<open>sort\<close> uses
  nothing else, and takes \<open>NaN\<close>, the difference of two infinities, as 0):

  \<^verbatim>\<open>if (a.hasActiveWord !== b.hasActiveWord) return b.hasActiveWord - a.hasActiveWord;
  if (a.score !== b.score) return b.score - a.score;
  return b.earliestStart - a.earliestStart;\<close>
\<close>

definition startDifferenceSign :: "real option \<Rightarrow> real option \<Rightarrow> int" where
  "startDifferenceSign b a =
     (case (b, a) of
        (Some x, Some y) \<Rightarrow> (if x < y then -1 else if x = y then 0 else 1)
      | (None, Some y) \<Rightarrow> 1
      | (Some x, None) \<Rightarrow> -1
      | (None, None) \<Rightarrow> 0)"

definition compareCandidates :: "Candidate \<Rightarrow> Candidate \<Rightarrow> int" where
  "compareCandidates a b =
     (if c_hasActiveWord a \<noteq> c_hasActiveWord b
      then of_bool (c_hasActiveWord b) - of_bool (c_hasActiveWord a)
      else if c_score a \<noteq> c_score b then sgn (c_score b - c_score a)
      else startDifferenceSign (c_earliestStart b) (c_earliestStart a))"

text \<open>
  \<open>Array.prototype.sort\<close> with a comparator is stable: an element goes before the
  elements that follow it in the array unless the comparator puts it after them. Insertion
  from the right end does the same.
\<close>

fun insertBy :: "('a \<Rightarrow> 'a \<Rightarrow> int) \<Rightarrow> 'a \<Rightarrow> 'a list \<Rightarrow> 'a list" where
  "insertBy cmp x [] = [x]"
| "insertBy cmp x (y # ys) = (if cmp x y \<le> 0 then x # y # ys else y # insertBy cmp x ys)"

definition sortBy :: "('a \<Rightarrow> 'a \<Rightarrow> int) \<Rightarrow> 'a list \<Rightarrow> 'a list" where
  "sortBy cmp xs = foldr (insertBy cmp) xs []"

definition candidates :: "Subtitle list \<Rightarrow> real \<Rightarrow> Candidate list" where
  "candidates subtitles currentTime =
     (let adjustedTime = currentTime + TIMING_BUFFER
      in sortBy compareCandidates
           (filter (\<lambda>c. c_score c > 0) (map (candidate adjustedTime) subtitles)))"

definition getVisibleSubtitles :: "Subtitle list \<Rightarrow> real \<Rightarrow> Subtitle list" where
  "getVisibleSubtitles subtitles currentTime =
     (case candidates subtitles currentTime of [] \<Rightarrow> [] | c # _ \<Rightarrow> [c_subtitle c])"

text \<open>A subtitle has a word that is active at the buffered time.\<close>

definition hasActiveWordAt :: "real \<Rightarrow> Subtitle \<Rightarrow> bool" where
  "hasActiveWordAt currentTime sub =
     (case sub_words sub of
        Some ws \<Rightarrow> list_ex (\<lambda>word. currentTime + TIMING_BUFFER \<ge> w_start word \<and>
                                  currentTime + TIMING_BUFFER \<le> w_end word) ws
      | None \<Rightarrow> False)"

text \<open>The test \<open>isActive\<close> of the \<open>forEach\<close> body.\<close>

definition activeAt :: "real \<Rightarrow> Word \<Rightarrow> bool" where
  "activeAt adjustedTime word \<longleftrightarrow> adjustedTime \<ge> w_start word \<and> adjustedTime \<le> w_end word"

text \<open>For the analysis: the order that the comparator's first two keys induce.\<close>

definition ranksBefore :: "Candidate \<Rightarrow> Candidate \<Rightarrow> bool" where
  "ranksBefore a b \<longleftrightarrow>
     (c_hasActiveWord b \<longrightarrow> c_hasActiveWord a) \<and>
     (c_hasActiveWord a = c_hasActiveWord b \<longrightarrow> c_score b \<le> c_score a)"

section \<open>Progress of the render pipeline (index.js, lib/progressStore.ts)\<close>

subsection \<open>The progress store\<close>

text \<open>
  \<open>setProgress\<close> overwrites the state kept for the export id and calls every subscriber of
  that id with the new state. \<open>published\<close> is what a subscriber that listens from the start
  receives, in order, with the id it was published for. The retention timer has no part in
  what is published and is left out.
\<close>

record ProgressState =
  ps_progress :: real
  ps_stage :: string
  ps_message :: string

record Store =
  progressStore :: "string \<rightharpoonup> ProgressState"
  published :: "(string \<times> ProgressState) list"

definition emptyStore :: Store where
  "emptyStore = \<lparr>progressStore = Map.empty, published = []\<rparr>"

definition setProgress :: "string \<Rightarrow> real \<Rightarrow> string \<Rightarrow> string \<Rightarrow> Store \<Rightarrow> Store" where
  "setProgress exportId progress stage message store =
     (let state = \<lparr>ps_progress = progress, ps_stage = stage, ps_message = message\<rparr>
      in store\<lparr>progressStore := (progressStore store)(exportId \<mapsto> state),
               published := published store @ [(exportId, state)]\<rparr>)"

definition updatesFor :: "string \<Rightarrow> Store \<Rightarrow> ProgressState list" where
  "updatesFor exportId store =
     map snd (filter (\<lambda>entry. fst entry = exportId) (published store))"

subsection \<open>What the stages report\<close>

text \<open>
  A stage reports through the callback \<open>onProgress\<close> it is given; here the callback acts on
  the store. \<open>Math.min(currentFrame / totalFrames, 1)\<close>, for a frame number parsed from a
  \<open>frame=\<close> line of ffmpeg: with \<open>totalFrames = 0\<close> the quotient is \<open>Infinity\<close>, or \<open>NaN\<close>
  for frame 0, which is \<open>None\<close> and fails every comparison.
\<close>

definition frameProgress :: "nat \<Rightarrow> nat \<Rightarrow> real option" where
  "frameProgress currentFrame totalFrames =
     (if totalFrames = 0 then (if currentFrame = 0 then None else Some 1)
      else Some (min (real currentFrame / real totalFrames) 1))"

text \<open>
  \<open>extractVideoFrames\<close>, the handler of \<open>stderr\<close> data that holds a frame number, on the
  variable \<open>lastProgress\<close>:

  \<^verbatim>\<open>const progress = Math.min(currentFrame / totalFrames, 1);
  const progressPercent = Math.floor(progress * 100);
  if (progressPercent > lastProgress && progressPercent % 5 === 0) {
      onProgress(progress);
      lastProgress = progressPercent;
  }\<close>

  When ffmpeg has closed with code 0 the function reports 1; with another code it rejects.
  \<open>frames\<close> are the frame numbers that ffmpeg printed, \<open>exitOk\<close> says that its code was 0;
  the result says whether the function returned.
\<close>

definition extractionData ::
  "nat \<Rightarrow> (real \<Rightarrow> Store \<Rightarrow> Store) \<Rightarrow> nat \<times> Store \<Rightarrow> nat \<Rightarrow> nat \<times> Store" where
  "extractionData totalFrames onProgress s currentFrame =
     (case frameProgress currentFrame totalFrames of
        None \<Rightarrow> s
      | Some progress \<Rightarrow>
          (let lastProgress = fst s;
               progressPercent = nat \<lfloor>progress * 100\<rfloor>
           in if progressPercent > lastProgress \<and> progressPercent mod 5 = 0
              then (progressPercent, onProgress progress (snd s)) else s))"

definition extractVideoFrames ::
  "nat \<Rightarrow> nat list \<Rightarrow> bool \<Rightarrow> (real \<Rightarrow> Store \<Rightarrow> Store) \<Rightarrow> Store \<Rightarrow> bool \<times> Store" where
  "extractVideoFrames totalFrames frames exitOk onProgress store =
     (let store = snd (foldl (extractionData totalFrames onProgress) (0, store) frames)
      in if exitOk then (True, onProgress 1 store) else (False, store))"

text \<open>
  \<open>renderCaptionOverlays\<close>: the workers of all chunks share the counter \<open>completedFrames\<close>,
  and each of them, when it has written a frame, runs

  \<^verbatim>\<open>completedFrames++;
  if (onProgress && completedFrames % 10 === 0) {
    onProgress(completedFrames / totalFrames);
  }\<close>

  \<open>framesCompleted\<close> is the effect of the frames that take the counter from \<open>done\<close> to
  \<open>done'\<close>, whichever workers complete them.
\<close>

definition framesCompleted ::
  "nat \<Rightarrow> (real \<Rightarrow> Store \<Rightarrow> Store) \<Rightarrow> nat \<Rightarrow> nat \<Rightarrow> Store \<Rightarrow> Store" where
  "framesCompleted totalFrames onProgress done done' store =
     foldl (\<lambda>store completedFrames.
              if completedFrames mod 10 = 0
              then onProgress (real completedFrames / real totalFrames) store else store)
           store [done + 1 ..< done' + 1]"

text \<open>
  \<open>composeFinalVideo\<close>, the handler of \<open>stderr\<close> data that holds a frame number, on the
  variable \<open>lastReportedProgress\<close>:

  \<^verbatim>\<open>const progress = Math.floor((currentFrame / totalFrames) * 100);
  const normalizedProgress = Math.min(currentFrame / totalFrames, 1);
  if (onProgress && (progress >= lastReportedProgress + 5 || normalizedProgress >= 1)) {
      onProgress(normalizedProgress);
      lastReportedProgress = progress;
  }\<close>

  When ffmpeg has closed with code 0 the function reports 1; with another code it rejects.
\<close>

definition compositionData ::
  "nat \<Rightarrow> (real \<Rightarrow> Store \<Rightarrow> Store) \<Rightarrow> nat \<times> Store \<Rightarrow> nat \<Rightarrow> nat \<times> Store" where
  "compositionData totalFrames onProgress s currentFrame =
     (if totalFrames = 0
      then (if currentFrame = 0 then s else (fst s, onProgress 1 (snd s)))
      else (let lastReportedProgress = fst s;
                progress = nat \<lfloor>real currentFrame / real totalFrames * 100\<rfloor>;
                normalizedProgress = min (real currentFrame / real totalFrames) 1
            in if progress \<ge> lastReportedProgress + 5 \<or> normalizedProgress \<ge> 1
               then (progress, onProgress normalizedProgress (snd s)) else s))"

definition composeFinalVideo ::
  "nat \<Rightarrow> nat list \<Rightarrow> bool \<Rightarrow> (real \<Rightarrow> Store \<Rightarrow> Store) \<Rightarrow> Store \<Rightarrow> bool \<times> Store" where
  "composeFinalVideo totalFrames frames exitOk onProgress store =
     (let store = snd (foldl (compositionData totalFrames onProgress) (0, store) frames)
      in if exitOk then (True, onProgress 1 store) else (False, store))"

subsection \<open>The handler of POST /render\<close>

text \<open>
  One run of the handler is fixed by what its surroundings do: which parts the request
  has, the export id in force (\<open>payload.metadata.exportId\<close>, or the field \<open>exportId\<close> when
  the payload cannot be read), the step that throws, if one does, with the message of its
  error, the number of frames, the frame numbers that the two ffmpeg processes print, and
  how far the overlay workers get. \<open>Promise.all\<close> rejects as soon as one worker has failed
  and stops no other worker: \<open>run_overlayCompleted\<close> counts the frames completed before the
  handler, having closed the browser, publishes the error, and \<open>run_overlayLate\<close> the frames
  that workers still complete after that (a worker that is writing its frame to disk at
  that moment completes it).
\<close>

datatype failure =
    RequestFails | MkdirFramesFails | ExtractionFails | MkdirOverlaysFails
  | CreateBrowserFails | OverlayFails | BrowserCloseFails | CompositionFails | SendFails

record RenderRun =
  run_hasVideo :: bool
  run_hasPayload :: bool
  run_exportId :: string
  run_failure :: "failure option"
  run_errorMessage :: string
  run_totalFrames :: nat
  run_extractionFrames :: "nat list"
  run_overlayCompleted :: nat
  run_overlayLate :: nat
  run_compositionFrames :: "nat list"

text \<open>The three callbacks of the handler.\<close>

definition onFrameExtractionProgress :: "string \<Rightarrow> real \<Rightarrow> Store \<Rightarrow> Store" where
  "onFrameExtractionProgress exportId progress =
     setProgress exportId (10 + progress * 0.2) ''video processing'' ''Extracting frames from video''"

definition onOverlayProgress :: "string \<Rightarrow> real \<Rightarrow> Store \<Rightarrow> Store" where
  "onOverlayProgress exportId progress =
     setProgress exportId (30 + progress * 0.4) ''caption rendering'' ''Rendering caption overlays''"

definition onCompositionProgress :: "string \<Rightarrow> real \<Rightarrow> Store \<Rightarrow> Store" where
  "onCompositionProgress exportId progress =
     setProgress exportId (70 + progress * 0.25) ''encoding'' ''Compositing video frames''"

text \<open>
  The body of the outer \<open>try\<close>, from the parsing of the payload on; the result says whether
  it returned (\<open>True\<close>) or threw.
\<close>

definition renderTry :: "RenderRun \<Rightarrow> Store \<Rightarrow> bool \<times> Store" where
  "renderTry run store =
     (let exportId = run_exportId run;
          failure = run_failure run;
          totalFrames = run_totalFrames run
      in if failure = Some RequestFails then (False, store)
         else
          (let store = setProgress exportId 0 ''initialization'' ''Starting render pipeline'' store
           in if failure = Some MkdirFramesFails then (False, store)
              else
               (let store = setProgress exportId 5 ''initialization'' ''Extracting video frames'' store;
                    extracted = extractVideoFrames totalFrames (run_extractionFrames run)
                                  (failure \<noteq> Some ExtractionFails)
                                  (onFrameExtractionProgress exportId) store;
                    store = snd extracted
                in if \<not> fst extracted then (False, store)
                   else
                    (let store = setProgress exportId 30 ''video processing''
                                   ''Video frames extracted'' store
                     in if failure = Some MkdirOverlaysFails then (False, store)
                        else
                         (let store = setProgress exportId 30 ''caption rendering''
                                        ''Rendering caption overlays'' store
                          in if failure = Some CreateBrowserFails then (False, store)
                             else if failure = Some OverlayFails
                             then (False, framesCompleted totalFrames (onOverlayProgress exportId)
                                            0 (run_overlayCompleted run) store)
                             else
                              (let store = framesCompleted totalFrames (onOverlayProgress exportId)
                                             0 totalFrames store;
                                   store = setProgress exportId 70 ''caption rendering''
                                             ''Caption overlays rendered'' store
                               in if failure = Some BrowserCloseFails then (False, store)
                                  else
                                   (let store = setProgress exportId 70 ''encoding''
                                                  ''Compositing final video'' store;
                                        composed = composeFinalVideo totalFrames
                                                     (run_compositionFrames run)
                                                     (failure \<noteq> Some CompositionFails)
                                                     (onCompositionProgress exportId) store;
                                        store = snd composed
                                    in if \<not> fst composed then (False, store)
                                       else
                                        (let store = setProgress exportId 95 ''finalizing''
                                                       ''Finalizing video'' store;
                                             store = setProgress exportId 100 ''complete''
                                                       ''Video export complete'' store
                                         in (failure \<noteq> Some SendFails, store)))))))))"

text \<open>
  The handler: without a video or without a payload it answers 400 and publishes nothing;
  the outer \<open>catch\<close> publishes the error,

  \<^verbatim>\<open>setProgress(exportId, 100, "error", error instanceof Error ? error.message : "Render failed");\<close>

  and the workers that outlive a failed overlay stage report after it.
\<close>

definition render :: "RenderRun \<Rightarrow> Store \<Rightarrow> Store" where
  "render run store =
     (if \<not> run_hasVideo run then store
      else if \<not> run_hasPayload run then store
      else (let tried = renderTry run store;
                store = snd tried
            in if fst tried then store
               else (let store = setProgress (run_exportId run) 100 ''error''
                                   (run_errorMessage run) store
                     in if run_failure run = Some OverlayFails
                        then framesCompleted (run_totalFrames run)
                               (onOverlayProgress (run_exportId run))
                               (run_overlayCompleted run)
                               (run_overlayCompleted run + run_overlayLate run) store
                        else store)))"

text \<open>
  For the analysis: the updates published for an export id are in nondecreasing order of
  percent, and none is above the bound.
\<close>

definition upTo :: "string \<Rightarrow> real \<Rightarrow> Store \<Rightarrow> bool" where
  "upTo exportId bound store \<longleftrightarrow>
     sorted (map ps_progress (updatesFor exportId store)) \<and>
     list_all (\<lambda>s. ps_progress s \<le> bound) (updatesFor exportId store)"

section \<open>Verification: frame job planner\<close>

lemma chunkLoop_unfold:
  "chunkLoop i concurrency fpw totalFrames chunks =
     chunks @ concat (map (iter_chunks fpw totalFrames) [i ..< concurrency])"
proof (induction i concurrency fpw totalFrames chunks rule: chunkLoop.induct)
  case (1 i concurrency fpw totalFrames chunks)
  show ?case
  proof (cases "i < concurrency")
    case True
    have upt: "[i ..< concurrency] = i # [i + 1 ..< concurrency]"
      using True by (simp add: upt_conv_Cons)
    have pushed: "(if i * fpw < totalFrames
          then chunks @ [\<lparr>chunk_id = i, chunk_start = i * fpw,
                           chunk_end = min ((i + 1) * fpw) totalFrames\<rparr>]
          else chunks) = chunks @ iter_chunks fpw totalFrames i"
      by (simp add: iter_chunks_def mk_chunk_def)
    have step: "chunkLoop i concurrency fpw totalFrames chunks =
        chunkLoop (i + 1) concurrency fpw totalFrames (chunks @ iter_chunks fpw totalFrames i)"
      using True by (subst chunkLoop.simps) (simp only: Let_def pushed if_True)
    have "chunkLoop (i + 1) concurrency fpw totalFrames (chunks @ iter_chunks fpw totalFrames i) =
        (chunks @ iter_chunks fpw totalFrames i) @
        concat (map (iter_chunks fpw totalFrames) [i + 1 ..< concurrency])"
      using "1.IH" [OF True refl refl] by (simp only: pushed)
    then show ?thesis
      by (simp only: step upt list.map concat.simps append_assoc)
  next
    case False
    then show ?thesis
      by (subst chunkLoop.simps) simp
  qed
qed

lemma chunks_upto_0: "chunks_upto fpw totalFrames 0 = []"
  by (simp add: chunks_upto_def)

lemma chunks_upto_Suc:
  "chunks_upto fpw totalFrames (Suc n) =
     chunks_upto fpw totalFrames n @ iter_chunks fpw totalFrames n"
  by (simp add: chunks_upto_def)

lemma planChunks_upto:
  "planChunks totalFrames concurrency =
     chunks_upto (framesPerWorker totalFrames concurrency) totalFrames concurrency"
  by (simp add: planChunks_def chunkLoop_unfold chunks_upto_def)

lemma upt_0_append: "a \<le> b \<Longrightarrow> [0 ..< a] @ [a ..< b] = [0 ..< b]"
  by (metis le_add_diff_inverse upt_add_eq_append zero_le)

lemma chunks_upto_cover:
  "concat (map chunk_frames (chunks_upto fpw totalFrames n)) = [0 ..< min (n * fpw) totalFrames]"
proof (induction n)
  case 0
  show ?case by (simp add: chunks_upto_0)
next
  case (Suc n)
  show ?case
  proof (cases "n * fpw < totalFrames")
    case True
    then have "min (n * fpw) totalFrames = n * fpw" by simp
    moreover have "n * fpw \<le> min (Suc n * fpw) totalFrames" using True by simp
    ultimately show ?thesis
      using Suc True
      by (simp add: chunks_upto_Suc iter_chunks_def mk_chunk_def chunk_frames_def
          upt_0_append del: mult_Suc)
  next
    case False
    then have "min (n * fpw) totalFrames = totalFrames" "min (Suc n * fpw) totalFrames = totalFrames"
      by (simp_all add: min_def)
    then show ?thesis
      using Suc False by (simp add: chunks_upto_Suc iter_chunks_def)
  qed
qed

lemma chunks_upto_shape:
  "length (chunks_upto fpw totalFrames n) \<le> n \<and>
   (n * fpw < totalFrames \<longrightarrow> length (chunks_upto fpw totalFrames n) = n) \<and>
   chunks_upto fpw totalFrames n =
     map (mk_chunk fpw totalFrames) [0 ..< length (chunks_upto fpw totalFrames n)] \<and>
   (\<forall>j < length (chunks_upto fpw totalFrames n). j * fpw < totalFrames) \<and>
   (length (chunks_upto fpw totalFrames n) < n \<longrightarrow>
      totalFrames \<le> length (chunks_upto fpw totalFrames n) * fpw)"
proof (induction n)
  case 0
  show ?case by (simp add: chunks_upto_0)
next
  case (Suc n)
  show ?case
  proof (cases "n * fpw < totalFrames")
    case True
    with Suc have len: "length (chunks_upto fpw totalFrames n) = n" by simp
    have "length (chunks_upto fpw totalFrames (Suc n)) = Suc n"
      using True len by (simp add: chunks_upto_Suc iter_chunks_def)
    moreover have "chunks_upto fpw totalFrames (Suc n) = map (mk_chunk fpw totalFrames) [0 ..< Suc n]"
      using Suc True len by (simp add: chunks_upto_Suc iter_chunks_def)
    moreover have "\<forall>j < Suc n. j * fpw < totalFrames"
      using Suc True len by (auto simp: less_Suc_eq)
    ultimately show ?thesis by simp
  next
    case False
    then have same: "chunks_upto fpw totalFrames (Suc n) = chunks_upto fpw totalFrames n"
      by (simp add: chunks_upto_Suc iter_chunks_def)
    have "\<not> Suc n * fpw < totalFrames" using False by simp
    moreover have "totalFrames \<le> length (chunks_upto fpw totalFrames n) * fpw"
    proof (cases "length (chunks_upto fpw totalFrames n) < n")
      case True
      with Suc show ?thesis by simp
    next
      case False
      with Suc have "length (chunks_upto fpw totalFrames n) = n" by simp
      with \<open>\<not> n * fpw < totalFrames\<close> show ?thesis by simp
    qed
    ultimately show ?thesis using Suc same by auto
  qed
qed

lemma framesPerWorker_covers:
  assumes "1 \<le> concurrency"
  shows "totalFrames \<le> concurrency * framesPerWorker totalFrames concurrency"
proof -
  have c: "0 < real concurrency" using assms by simp
  have "real totalFrames / real concurrency \<le> of_int \<lceil>real totalFrames / real concurrency\<rceil>"
    by (rule le_of_int_ceiling)
  moreover have "0 \<le> real totalFrames / real concurrency" by simp
  then have "0 \<le> \<lceil>real totalFrames / real concurrency\<rceil>" by linarith
  ultimately have "real totalFrames / real concurrency
      \<le> real (framesPerWorker totalFrames concurrency)"
    by (simp add: framesPerWorker_def)
  then have "real totalFrames \<le> real concurrency * real (framesPerWorker totalFrames concurrency)"
    using c by (simp add: field_simps)
  then show ?thesis
    by (metis of_nat_le_iff of_nat_mult)
qed

lemma framesPerWorker_pos:
  assumes "1 \<le> concurrency" "0 < totalFrames"
  shows "0 < framesPerWorker totalFrames concurrency"
proof (rule ccontr)
  assume "\<not> 0 < framesPerWorker totalFrames concurrency"
  then have "concurrency * framesPerWorker totalFrames concurrency = 0" by simp
  with framesPerWorker_covers [OF assms(1), of totalFrames] assms(2) show False by simp
qed


text \<open>
  Claim C8. For every \<open>totalFrames \<ge> 0\<close> and \<open>concurrency \<ge> 1\<close> the planned chunks
  cover the frame indices \<open>0, \<dots>, totalFrames - 1\<close> in order, each exactly once; there are
  at most \<open>concurrency\<close> of them and none is empty; each chunk but the last has
  \<open>ceil(totalFrames / concurrency)\<close> frames and ends where the next one starts; the first
  starts at 0, the last ends at \<open>totalFrames\<close> and is no longer than the others. With
  \<open>concurrency = 4\<close> and \<open>totalFrames = 10\<close> the chunks are [0,3), [3,6), [6,9), [9,10).
\<close>

theorem planChunks_partition:
  assumes "1 \<le> concurrency"
  shows "(let cs = planChunks totalFrames concurrency;
              fpw = framesPerWorker totalFrames concurrency
          in concat (map chunk_frames cs) = [0 ..< totalFrames] \<and>
             length cs \<le> concurrency \<and>
             (\<forall>c \<in> set cs. chunk_start c < chunk_end c) \<and>
             (\<forall>i. Suc i < length cs \<longrightarrow>
                  chunk_end (cs ! i) - chunk_start (cs ! i) = fpw \<and>
                  chunk_end (cs ! i) = chunk_start (cs ! Suc i)) \<and>
             (cs \<noteq> [] \<longrightarrow>
                  chunk_start (hd cs) = 0 \<and> chunk_end (last cs) = totalFrames \<and>
                  chunk_end (last cs) - chunk_start (last cs) \<le> fpw)) \<and>
         planChunks 10 4 =
           [\<lparr>chunk_id = 0, chunk_start = 0, chunk_end = 3\<rparr>,
            \<lparr>chunk_id = 1, chunk_start = 3, chunk_end = 6\<rparr>,
            \<lparr>chunk_id = 2, chunk_start = 6, chunk_end = 9\<rparr>,
            \<lparr>chunk_id = 3, chunk_start = 9, chunk_end = 10\<rparr>]"
proof -
  define fpw where "fpw = framesPerWorker totalFrames concurrency"
  define cs where "cs = planChunks totalFrames concurrency"
  have cs_upto: "cs = chunks_upto fpw totalFrames concurrency"
    by (simp add: cs_def fpw_def planChunks_upto)
  have covers: "totalFrames \<le> concurrency * fpw"
    unfolding fpw_def by (rule framesPerWorker_covers [OF assms])
  have fpw_pos: "0 < totalFrames \<Longrightarrow> 0 < fpw"
    unfolding fpw_def by (rule framesPerWorker_pos [OF assms])
  note shape = chunks_upto_shape [of fpw totalFrames concurrency, folded cs_upto]
  have len: "length cs \<le> concurrency" using shape by simp
  have nth: "cs ! i = mk_chunk fpw totalFrames i" if "i < length cs" for i
  proof -
    have "cs = map (mk_chunk fpw totalFrames) [0 ..< length cs]" using shape by simp
    then have "cs ! i = map (mk_chunk fpw totalFrames) [0 ..< length cs] ! i" by simp
    then show ?thesis using that by simp
  qed
  have lt: "i * fpw < totalFrames" if "i < length cs" for i
    using shape that by simp
  have cover: "concat (map chunk_frames cs) = [0 ..< totalFrames]"
    using chunks_upto_cover [of fpw totalFrames concurrency] covers
    by (simp add: cs_upto min_def mult.commute)
  have nonempty: "\<forall>c \<in> set cs. chunk_start c < chunk_end c"
  proof
    fix c assume "c \<in> set cs"
    then obtain i where i: "i < length cs" "c = cs ! i" by (auto simp: in_set_conv_nth)
    have "i * fpw < totalFrames" using lt i by simp
    moreover from this have "0 < fpw" using fpw_pos by (cases totalFrames) auto
    ultimately show "chunk_start c < chunk_end c"
      using i nth by (simp add: mk_chunk_def)
  qed
  have full: "\<forall>i. Suc i < length cs \<longrightarrow>
      chunk_end (cs ! i) - chunk_start (cs ! i) = fpw \<and>
      chunk_end (cs ! i) = chunk_start (cs ! Suc i)"
  proof (intro allI impI)
    fix i assume i: "Suc i < length cs"
    then have "Suc i * fpw < totalFrames" using lt by blast
    then show "chunk_end (cs ! i) - chunk_start (cs ! i) = fpw \<and>
      chunk_end (cs ! i) = chunk_start (cs ! Suc i)"
      using i nth [of i] nth [of "Suc i"] by (simp add: mk_chunk_def)
  qed
  have ends: "cs \<noteq> [] \<longrightarrow>
      chunk_start (hd cs) = 0 \<and> chunk_end (last cs) = totalFrames \<and>
      chunk_end (last cs) - chunk_start (last cs) \<le> fpw"
  proof
    assume ne: "cs \<noteq> []"
    then have pos: "0 < length cs" by simp
    have hd0: "chunk_start (hd cs) = 0"
      using nth [OF pos] ne by (simp add: hd_conv_nth mk_chunk_def)
    define k where "k = length cs - 1"
    have k: "k < length cs" "last cs = cs ! k" "Suc k = length cs"
      using ne by (simp_all add: k_def last_conv_nth)
    have last_eq: "last cs = mk_chunk fpw totalFrames k" using k nth by simp
    have "totalFrames \<le> Suc k * fpw"
    proof (cases "length cs < concurrency")
      case True
      then show ?thesis using shape k by simp
    next
      case False
      then have "concurrency = Suc k" using len k by simp
      with covers show ?thesis by simp
    qed
    then have "chunk_end (last cs) = totalFrames"
      by (simp add: last_eq mk_chunk_def min_def)
    moreover have "chunk_end (last cs) - chunk_start (last cs) \<le> fpw"
      by (simp add: last_eq mk_chunk_def)
    ultimately show "chunk_start (hd cs) = 0 \<and> chunk_end (last cs) = totalFrames \<and>
      chunk_end (last cs) - chunk_start (last cs) \<le> fpw"
      using hd0 by simp
  qed
  have example: "planChunks 10 4 =
           [\<lparr>chunk_id = 0, chunk_start = 0, chunk_end = 3\<rparr>,
            \<lparr>chunk_id = 1, chunk_start = 3, chunk_end = 6\<rparr>,
            \<lparr>chunk_id = 2, chunk_start = 6, chunk_end = 9\<rparr>,
            \<lparr>chunk_id = 3, chunk_start = 9, chunk_end = 10\<rparr>]"
    by (simp add: planChunks_upto chunks_upto_def framesPerWorker_def iter_chunks_def
        mk_chunk_def upt_rec)
  show ?thesis
    using cover len nonempty full ends example
    unfolding Let_def cs_def [symmetric] fpw_def [symmetric] by blast
qed

theorem planChunks_partition_witness:
  "(1::nat) \<le> 3 \<and>
   planChunks 7 3 =
     [\<lparr>chunk_id = 0, chunk_start = 0, chunk_end = 3\<rparr>,
      \<lparr>chunk_id = 1, chunk_start = 3, chunk_end = 6\<rparr>,
      \<lparr>chunk_id = 2, chunk_start = 6, chunk_end = 7\<rparr>] \<and>
   concat (map chunk_frames (planChunks 7 3)) = [0 ..< 7] \<and>
   length (planChunks 7 3) \<le> 3"
proof -
  have h: "(1::nat) \<le> 3" by simp
  have v: "planChunks 7 3 =
     [\<lparr>chunk_id = 0, chunk_start = 0, chunk_end = 3\<rparr>,
      \<lparr>chunk_id = 1, chunk_start = 3, chunk_end = 6\<rparr>,
      \<lparr>chunk_id = 2, chunk_start = 6, chunk_end = 7\<rparr>]"
    by (simp add: planChunks_upto chunks_upto_def framesPerWorker_def iter_chunks_def
        mk_chunk_def upt_rec)
  show ?thesis
    using h v planChunks_partition [OF h, of 7] by (simp add: Let_def)
qed

section \<open>Verification: normalizeSegments\<close>

subsection \<open>Rounding to two decimals\<close>

lemma roundTo_2: "roundTo x 2 = of_int \<lfloor>x * 100 + 1 / 2\<rfloor> / 100"
  by (simp add: roundTo_def)

lemma roundTo_mono: "x \<le> y \<Longrightarrow> roundTo x 2 \<le> roundTo y 2"
proof -
  assume "x \<le> y"
  then have "\<lfloor>x * 100 + 1 / 2\<rfloor> \<le> \<lfloor>y * 100 + 1 / 2\<rfloor>"
    by (intro floor_mono) simp
  then show ?thesis
    by (simp add: roundTo_2 divide_right_mono)
qed

subsection \<open>One step of the sweep\<close>

lemma sweep_Cons:
  "sweep duration cursor (segment # rest) =
     segment\<lparr>seg_start := roundTo (sweep_start duration cursor segment) 2,
              seg_end := roundTo (sweep_end duration cursor segment rest) 2,
              seg_words := map_option (boundedWords (sweep_start duration cursor segment)
                                          (sweep_end duration cursor segment rest))
                             (seg_words segment)\<rparr>
     # sweep duration (sweep_end duration cursor segment rest) rest"
  by (simp add: sweep.simps(2) sweep_start_def sweep_end_def Let_def split: option.splits)

lemma length_sweep: "length (sweep duration cursor xs) = length xs"
  by (induction xs arbitrary: cursor) (simp_all add: sweep_Cons)

lemma sweep_start_ge_cursor:
  assumes "\<And>d. duration = Some d \<Longrightarrow> cursor \<le> d"
  shows "cursor \<le> sweep_start duration cursor segment"
  using assms by (cases duration) (auto simp: sweep_start_def clamp_def Let_def)

lemma sweep_start_le_end:
  "sweep_start duration cursor segment \<le> sweep_end duration cursor segment rest"
  by (cases duration; cases rest)
     (auto simp: sweep_start_def sweep_end_def clamp_def Let_def MIN_SEGMENT_DURATION_def
           min_def max_def)

lemma sweep_end_le_duration:
  "duration = Some d \<Longrightarrow> sweep_end duration cursor segment rest \<le> d"
  by (simp add: sweep_end_def clamp_def Let_def)

lemma sweep_lower:
  assumes "\<And>d. duration = Some d \<Longrightarrow> cursor \<le> d"
  shows "\<forall>z \<in> set (sweep duration cursor xs). roundTo cursor 2 \<le> seg_start z"
  using assms
proof (induction xs arbitrary: cursor)
  case Nil
  show ?case by simp
next
  case (Cons segment rest)
  let ?s = "sweep_start duration cursor segment"
  let ?e = "sweep_end duration cursor segment rest"
  have cs: "cursor \<le> ?s" using Cons.prems by (rule sweep_start_ge_cursor)
  have se: "?s \<le> ?e" by (rule sweep_start_le_end)
  have tail: "\<forall>z \<in> set (sweep duration ?e rest). roundTo ?e 2 \<le> seg_start z"
    by (rule Cons.IH) (rule sweep_end_le_duration)
  have "roundTo cursor 2 \<le> roundTo ?e 2" using cs se by (intro roundTo_mono) simp
  with tail have "\<forall>z \<in> set (sweep duration ?e rest). roundTo cursor 2 \<le> seg_start z"
    by fastforce
  moreover have "roundTo cursor 2 \<le> roundTo ?s 2" using cs by (rule roundTo_mono)
  ultimately show ?case
    by (simp add: sweep_Cons)
qed

lemma sweep_ordered:
  "sorted_wrt (\<lambda>a b. seg_start a \<le> seg_start b \<and> seg_end a \<le> seg_start b)
     (sweep duration cursor xs)"
proof (induction xs arbitrary: cursor)
  case Nil
  show ?case by simp
next
  case (Cons segment rest)
  let ?s = "sweep_start duration cursor segment"
  let ?e = "sweep_end duration cursor segment rest"
  have tail: "\<forall>z \<in> set (sweep duration ?e rest). roundTo ?e 2 \<le> seg_start z"
    by (rule sweep_lower) (rule sweep_end_le_duration)
  have "roundTo ?s 2 \<le> roundTo ?e 2"
    by (rule roundTo_mono) (rule sweep_start_le_end)
  with tail have "\<forall>z \<in> set (sweep duration ?e rest).
      roundTo ?s 2 \<le> seg_start z \<and> roundTo ?e 2 \<le> seg_start z"
    by fastforce
  then show ?case
    using Cons.IH [of ?e] by (simp add: sweep_Cons)
qed

subsection \<open>Order and separation of the returned segments\<close>

text \<open>
  Claim C5. For every input segment list (and every total duration, given or not) the
  segments returned by \<open>normalizeSegments\<close> are ordered by start, and an earlier segment
  ends no later than any later segment starts; in particular this holds for every pair of
  consecutive segments. Each returned segment also starts no later than it ends.
\<close>

theorem normalizeSegments_ordered:
  "(let out = normalizeSegments segments totalDuration
    in sorted (map seg_start out) \<and>
       (\<forall>i j. i < j \<and> j < length out \<longrightarrow> seg_end (out ! i) \<le> seg_start (out ! j)) \<and>
       (\<forall>i. Suc i < length out \<longrightarrow> seg_end (out ! i) \<le> seg_start (out ! Suc i)) \<and>
       (\<forall>i < length out. seg_start (out ! i) \<le> seg_end (out ! i)))"
proof -
  define out where "out = normalizeSegments segments totalDuration"
  define duration where "duration = safeDuration totalDuration"
  have out_sweep: "out = sweep duration 0 (sanitized segments)"
    by (simp add: out_def duration_def normalizeSegments_def)
  have rel: "sorted_wrt (\<lambda>a b. seg_start a \<le> seg_start b \<and> seg_end a \<le> seg_start b) out"
    unfolding out_sweep by (rule sweep_ordered)
  have "sorted_wrt (\<lambda>a b. seg_start a \<le> seg_start b) out"
    by (rule sorted_wrt_mono_rel [OF _ rel]) simp
  then have sorted: "sorted (map seg_start out)"
    by (simp add: sorted_map)
  have pairs: "\<forall>i j. i < j \<and> j < length out \<longrightarrow> seg_end (out ! i) \<le> seg_start (out ! j)"
    using rel by (auto simp: sorted_wrt_iff_nth_less)
  then have consecutive: "\<forall>i. Suc i < length out \<longrightarrow> seg_end (out ! i) \<le> seg_start (out ! Suc i)"
    by (metis lessI)
  have "\<forall>i < length (sweep duration cursor xs).
      seg_start (sweep duration cursor xs ! i) \<le> seg_end (sweep duration cursor xs ! i)"
    for cursor xs
  proof (induction xs arbitrary: cursor)
    case Nil
    show ?case by simp
  next
    case (Cons segment rest)
    have "roundTo (sweep_start duration cursor segment) 2
        \<le> roundTo (sweep_end duration cursor segment rest) 2"
      by (rule roundTo_mono) (rule sweep_start_le_end)
    then show ?case
      using Cons.IH [of "sweep_end duration cursor segment rest"]
      by (auto simp: sweep_Cons nth_Cons split: nat.splits)
  qed
  then have proper: "\<forall>i < length out. seg_start (out ! i) \<le> seg_end (out ! i)"
    unfolding out_sweep by blast
  show ?thesis
    using sorted pairs consecutive proper unfolding Let_def out_def [symmetric] by blast
qed

theorem normalizeSegments_ordered_witness:
  "normalizeSegments
     [\<lparr>rs_text = ''b'', rs_start = Some (1 / 2), rs_end = Some 2, rs_words = None\<rparr>,
      \<lparr>rs_text = ''a'', rs_start = Some 0, rs_end = Some 1, rs_words = None\<rparr>] None =
     [\<lparr>seg_text = ''a'', seg_start = 0, seg_end = 1 / 2, seg_words = None\<rparr>,
      \<lparr>seg_text = ''b'', seg_start = 1 / 2, seg_end = 2, seg_words = None\<rparr>] \<and>
   seg_end (normalizeSegments
     [\<lparr>rs_text = ''b'', rs_start = Some (1 / 2), rs_end = Some 2, rs_words = None\<rparr>,
      \<lparr>rs_text = ''a'', rs_start = Some 0, rs_end = Some 1, rs_words = None\<rparr>] None ! 0)
   \<le> seg_start (normalizeSegments
     [\<lparr>rs_text = ''b'', rs_start = Some (1 / 2), rs_end = Some 2, rs_words = None\<rparr>,
      \<lparr>rs_text = ''a'', rs_start = Some 0, rs_end = Some 1, rs_words = None\<rparr>] None ! Suc 0)"
proof -
  let ?in = "[\<lparr>rs_text = ''b'', rs_start = Some (1 / 2), rs_end = Some 2, rs_words = None\<rparr>,
      \<lparr>rs_text = ''a'', rs_start = Some 0, rs_end = Some 1, rs_words = None\<rparr>]"
  have v: "normalizeSegments ?in None =
     [\<lparr>seg_text = ''a'', seg_start = 0, seg_end = 1 / 2, seg_words = None\<rparr>,
      \<lparr>seg_text = ''b'', seg_start = 1 / 2, seg_end = 2, seg_words = None\<rparr>]"
    by (simp add: normalizeSegments_def safeDuration_def sanitized_def sanitizeSegment_def
        sweep.simps(2) MIN_SEGMENT_DURATION_def roundTo_def Let_def)
  have len: "Suc 0 < length (normalizeSegments ?in None)"
    by (simp add: v)
  from normalizeSegments_ordered [of ?in None]
  have "\<forall>i. Suc i < length (normalizeSegments ?in None) \<longrightarrow>
      seg_end (normalizeSegments ?in None ! i) \<le> seg_start (normalizeSegments ?in None ! Suc i)"
    unfolding Let_def by blast
  with len have "seg_end (normalizeSegments ?in None ! 0)
      \<le> seg_start (normalizeSegments ?in None ! Suc 0)"
    by blast
  with v show ?thesis by blast
qed

subsection \<open>Minimum segment duration\<close>

text \<open>
  Claim C3 does not hold of the code. Without a total duration the sweep enforces the
  minimum duration (\<open>Math.max(segment.end, start + MIN_SEGMENT_DURATION)\<close>) and then caps
  the end to the start of the next segment (\<open>Math.min(end, nextStart)\<close>), and nothing
  restores the minimum: the segments [0, 1] and [0.1, 2] are returned as [0, 0.1] and
  [0.1, 2], the first one 0.1 s long. With a total duration the same function does restore
  it, through \<open>clamp(end, start + MIN_SEGMENT_DURATION, safeDuration)\<close>: the same segments
  with a total duration of 5 are returned as [0, 0.2] and [0.2, 2].
\<close>

theorem normalizeSegments_min_duration_violated:
  "normalizeSegments
     [\<lparr>rs_text = ''a'', rs_start = Some 0, rs_end = Some 1, rs_words = None\<rparr>,
      \<lparr>rs_text = ''b'', rs_start = Some (1 / 10), rs_end = Some 2, rs_words = None\<rparr>] None =
     [\<lparr>seg_text = ''a'', seg_start = 0, seg_end = 1 / 10, seg_words = None\<rparr>,
      \<lparr>seg_text = ''b'', seg_start = 1 / 10, seg_end = 2, seg_words = None\<rparr>] \<and>
   \<not> MIN_SEGMENT_DURATION \<le>
       seg_end (normalizeSegments
         [\<lparr>rs_text = ''a'', rs_start = Some 0, rs_end = Some 1, rs_words = None\<rparr>,
          \<lparr>rs_text = ''b'', rs_start = Some (1 / 10), rs_end = Some 2, rs_words = None\<rparr>] None ! 0) -
       seg_start (normalizeSegments
         [\<lparr>rs_text = ''a'', rs_start = Some 0, rs_end = Some 1, rs_words = None\<rparr>,
          \<lparr>rs_text = ''b'', rs_start = Some (1 / 10), rs_end = Some 2, rs_words = None\<rparr>] None ! 0) \<and>
   normalizeSegments
     [\<lparr>rs_text = ''a'', rs_start = Some 0, rs_end = Some 1, rs_words = None\<rparr>,
      \<lparr>rs_text = ''b'', rs_start = Some (1 / 10), rs_end = Some 2, rs_words = None\<rparr>] (Some 5) =
     [\<lparr>seg_text = ''a'', seg_start = 0, seg_end = 1 / 5, seg_words = None\<rparr>,
      \<lparr>seg_text = ''b'', seg_start = 1 / 5, seg_end = 2, seg_words = None\<rparr>]"
proof -
  let ?a = "\<lparr>seg_text = ''a'', seg_start = 0, seg_end = 1, seg_words = None\<rparr>"
  let ?b = "\<lparr>seg_text = ''b'', seg_start = 1 / 10, seg_end = 2, seg_words = None\<rparr>"
  have san: "sanitized
     [\<lparr>rs_text = ''a'', rs_start = Some 0, rs_end = Some 1, rs_words = None\<rparr>,
      \<lparr>rs_text = ''b'', rs_start = Some (1 / 10), rs_end = Some 2, rs_words = None\<rparr>] = [?a, ?b]"
    by (simp add: sanitized_def sanitizeSegment_def MIN_SEGMENT_DURATION_def Let_def)
  have a: "sweep_start None 0 ?a = 0" "sweep_end None 0 ?a [?b] = 1 / 10"
    by (simp_all add: sweep_start_def sweep_end_def MIN_SEGMENT_DURATION_def)
  have b: "sweep_start None (1 / 10) ?b = 1 / 10" "sweep_end None (1 / 10) ?b [] = 2"
    by (simp_all add: sweep_start_def sweep_end_def MIN_SEGMENT_DURATION_def)
  have a5: "sweep_start (Some 5) 0 ?a = 0" "sweep_end (Some 5) 0 ?a [?b] = 1 / 5"
    by (simp_all add: sweep_start_def sweep_end_def clamp_def MIN_SEGMENT_DURATION_def)
  have b5: "sweep_start (Some 5) (1 / 5) ?b = 1 / 5" "sweep_end (Some 5) (1 / 5) ?b [] = 2"
    by (simp_all add: sweep_start_def sweep_end_def clamp_def MIN_SEGMENT_DURATION_def)
  have r: "roundTo 0 2 = 0" "roundTo (1 / 10) 2 = 1 / 10" "roundTo (1 / 5) 2 = 1 / 5"
    "roundTo 2 2 = 2"
    by (simp_all add: roundTo_def)
  have none: "normalizeSegments
     [\<lparr>rs_text = ''a'', rs_start = Some 0, rs_end = Some 1, rs_words = None\<rparr>,
      \<lparr>rs_text = ''b'', rs_start = Some (1 / 10), rs_end = Some 2, rs_words = None\<rparr>] None =
     [\<lparr>seg_text = ''a'', seg_start = 0, seg_end = 1 / 10, seg_words = None\<rparr>,
      \<lparr>seg_text = ''b'', seg_start = 1 / 10, seg_end = 2, seg_words = None\<rparr>]"
    by (simp add: normalizeSegments_def safeDuration_def san sweep_Cons a b r)
  have five: "normalizeSegments
     [\<lparr>rs_text = ''a'', rs_start = Some 0, rs_end = Some 1, rs_words = None\<rparr>,
      \<lparr>rs_text = ''b'', rs_start = Some (1 / 10), rs_end = Some 2, rs_words = None\<rparr>] (Some 5) =
     [\<lparr>seg_text = ''a'', seg_start = 0, seg_end = 1 / 5, seg_words = None\<rparr>,
      \<lparr>seg_text = ''b'', seg_start = 1 / 5, seg_end = 2, seg_words = None\<rparr>]"
    by (simp add: normalizeSegments_def safeDuration_def san sweep_Cons a5 b5 r)
  have short: "\<not> MIN_SEGMENT_DURATION \<le> (1 / 10 :: real) - 0"
    by (simp add: MIN_SEGMENT_DURATION_def)
  show ?thesis
    using short by (simp add: none five)
qed

section \<open>Verification: groupWordsByTiming\<close>

lemma threshold_example:
  "timingThreshold (averageGap
     [\<lparr>rw_word = ''hi'', rw_start = Some 0, rw_end = Some (3 / 10)\<rparr>,
      \<lparr>rw_word = ''there'', rw_start = Some (8 / 25), rw_end = Some (3 / 5)\<rparr>,
      \<lparr>rw_word = ''friend'', rw_start = Some (11 / 10), rw_end = Some (7 / 5)\<rparr>])
   = SLOW_SPEECH_THRESHOLD"
  by (simp add: averageGap_def js_sub_def timingThreshold_def upt_rec)

text \<open>
  Claim C7. On the words hi [0.00, 0.30], there [0.32, 0.60], friend [1.10, 1.40]
  \<open>groupWordsByTiming\<close> returns exactly two groups: "hi there" spanning [0, 0.6] and
  "friend" spanning [1.1, 1.4]. (The average of the two gaps 0.02 and 0.5 is above 0.25,
  so the threshold is the slow one, 0.2: the gap of 0.02 ends nothing, the gap of 0.5
  exceeds twice the threshold and forces the end of the first group.)
\<close>

theorem groupWordsByTiming_example:
  "groupWordsByTiming
     [\<lparr>rw_word = ''hi'', rw_start = Some 0, rw_end = Some (3 / 10)\<rparr>,
      \<lparr>rw_word = ''there'', rw_start = Some (8 / 25), rw_end = Some (3 / 5)\<rparr>,
      \<lparr>rw_word = ''friend'', rw_start = Some (11 / 10), rw_end = Some (7 / 5)\<rparr>] =
     [\<lparr>g_words = [\<lparr>w_word = ''hi'', w_start = 0, w_end = 3 / 10\<rparr>,
                  \<lparr>w_word = ''there'', w_start = 8 / 25, w_end = 3 / 5\<rparr>],
       g_start = 0, g_end = 3 / 5, g_text = ''hi there''\<rparr>,
      \<lparr>g_words = [\<lparr>w_word = ''friend'', w_start = 11 / 10, w_end = 7 / 5\<rparr>],
       g_start = 11 / 10, g_end = 7 / 5, g_text = ''friend''\<rparr>]"
  by (simp add: groupWordsByTiming_def averageGap_def js_sub_def js_gt_def timingThreshold_def upt_rec
      SLOW_SPEECH_THRESHOLD_def NORMAL_SPEECH_THRESHOLD_def FAST_SPEECH_THRESHOLD_def
      MAX_GROUP_DURATION_def MAX_WORDS_PER_GROUP_def MIN_WORDS_PER_GROUP_def
      roundedWord_def roundTo_def MIN_WORD_DURATION_def MIN_SEGMENT_DURATION_def
      hasPunctuation_def hasComma_def makeGroup_def Let_def)

section \<open>Verification: word animation state\<close>

text \<open>When the two renderers give a word the same opacity and weight.\<close>

lemma word_styles_agree_iff:
  "domWordStyle currentTime w = canvasWordStyle currentTime w \<longleftrightarrow>
   \<not> (currentTime + TIMING_BUFFER \<ge> wt_start w \<and> currentTime + TIMING_BUFFER > wt_end w \<and>
      currentTime + TIMING_BUFFER > wt_fade w)"
  by (auto simp: domWordStyle_def canvasWordStyle_def TIMING_BUFFER_def Let_def)

text \<open>
  Claim C2 does not hold of the code. For a word with start 1, end 2 and fade 2.5 at the
  time 3 (buffered time 3.05, after the end and after the fade time) the DOM renderer takes
  none of its four branches and leaves opacity 0 and weight 400; the canvas renderer has no
  test against a fade time and gives every word that has appeared and is not active
  opacity 0.7 and weight 600.
\<close>

theorem word_styles_differ:
  "domWordStyle 3 \<lparr>wt_start = 1, wt_end = 2, wt_appear = 1 / 2, wt_fade = 5 / 2\<rparr> = (0, 400) \<and>
   canvasWordStyle 3 \<lparr>wt_start = 1, wt_end = 2, wt_appear = 1 / 2, wt_fade = 5 / 2\<rparr> = (7 / 10, 600)"
  by (simp add: domWordStyle_def canvasWordStyle_def TIMING_BUFFER_def Let_def)

section \<open>Verification: frame numbering\<close>

lemma overlay_video_offset_general:
  assumes "Suc i < totalFrames"
  shows "videoTimestampUnderOverlay fps totalFrames i = Some (real (Suc i) / fps)"
  using assms
  by (simp add: extractStartNumber_def composeVideoStartNumber_def composeOverlayStartNumber_def
      videoTimestampUnderOverlay_def videoFileTimestamp_def
      composedVideoFile_def overlayFrameFile_def)

text \<open>
  Claim C1 does not hold of the code. The extractor numbers the video frames from 0 and
  the compositor reads them from 1, while the overlays are written and read from 0. At 30
  frames per second, for a video of 90 frames, the overlay of frame 0, rendered for the
  time 0, is put on the video frame of the time 1/30; in general the overlay of frame
  \<open>i\<close> meets the video frame \<open>i + 1\<close>.
\<close>

theorem overlay_video_offset:
  "extractStartNumber = 0 \<and> composeVideoStartNumber = 1 \<and>
   composeOverlayStartNumber = 0 \<and> overlayFrameFile 0 = 0 \<and>
   overlayFrameTime 30 0 = 0 \<and>
   videoTimestampUnderOverlay 30 90 0 = Some (1 / 30)"
  by (simp add: extractStartNumber_def composeVideoStartNumber_def composeOverlayStartNumber_def
      overlayFrameTime_def videoTimestampUnderOverlay_def videoFileTimestamp_def
      composedVideoFile_def overlayFrameFile_def)

section \<open>Verification: the DOM overlay renderer\<close>

lemma updateCaption_display:
  "div_display (updateCaption currentTime caption) \<longleftrightarrow>
     div_start caption \<le> currentTime + TIMING_BUFFER \<and> currentTime + TIMING_BUFFER \<le> div_end caption"
  by (simp add: updateCaption_def Let_def)

text \<open>
  Claim C10. After \<open>updateCaptions\<close> a caption is displayed exactly when the buffered time
  \<open>currentTime + 0.05\<close> lies in the closed interval from its start to its end; no score
  and no other caption enters. Hence, when one caption ends where another starts and the
  buffered time is that boundary, both are displayed in the same frame. The second theorem
  shows it on a boundary that \<open>normalizeSegments\<close> makes: the segments [0, 1] and
  [0.05, 2] become [0, 0.05] and [0.05, 2], and frame 0 displays both captions.
\<close>

theorem updateCaptions_display:
  "length (updateCaptions currentTime overlay) = length overlay \<and>
   (\<forall>i < length overlay.
      div_display (updateCaptions currentTime overlay ! i) \<longleftrightarrow>
        div_start (overlay ! i) \<le> currentTime + TIMING_BUFFER \<and>
        currentTime + TIMING_BUFFER \<le> div_end (overlay ! i)) \<and>
   (\<forall>i j. i < length overlay \<and> j < length overlay \<and>
      div_start (overlay ! i) \<le> div_end (overlay ! i) \<and>
      div_start (overlay ! j) \<le> div_end (overlay ! j) \<and>
      div_end (overlay ! i) = div_start (overlay ! j) \<and>
      currentTime + TIMING_BUFFER = div_end (overlay ! i) \<longrightarrow>
      div_display (updateCaptions currentTime overlay ! i) \<and>
      div_display (updateCaptions currentTime overlay ! j))"
  by (simp add: updateCaptions_def updateCaption_display)

theorem updateCaptions_display_witness:
  "normalizeSegments
     [\<lparr>rs_text = ''a'', rs_start = Some 0, rs_end = Some 1, rs_words = None\<rparr>,
      \<lparr>rs_text = ''b'', rs_start = Some (1 / 20), rs_end = Some 2, rs_words = None\<rparr>] None =
     [\<lparr>seg_text = ''a'', seg_start = 0, seg_end = 1 / 20, seg_words = None\<rparr>,
      \<lparr>seg_text = ''b'', seg_start = 1 / 20, seg_end = 2, seg_words = None\<rparr>] \<and>
   div_display (updateCaptions (overlayFrameTime 30 0) (buildOverlay
     [\<lparr>cs_id = ''1'', cs_text = ''a'', cs_start = 0, cs_end = 1 / 20, cs_words = None\<rparr>,
      \<lparr>cs_id = ''2'', cs_text = ''b'', cs_start = 1 / 20, cs_end = 2, cs_words = None\<rparr>]) ! 0) \<and>
   div_display (updateCaptions (overlayFrameTime 30 0) (buildOverlay
     [\<lparr>cs_id = ''1'', cs_text = ''a'', cs_start = 0, cs_end = 1 / 20, cs_words = None\<rparr>,
      \<lparr>cs_id = ''2'', cs_text = ''b'', cs_start = 1 / 20, cs_end = 2, cs_words = None\<rparr>]) ! Suc 0)"
proof -
  let ?a = "\<lparr>seg_text = ''a'', seg_start = 0, seg_end = 1, seg_words = None\<rparr>"
  let ?b = "\<lparr>seg_text = ''b'', seg_start = 1 / 20, seg_end = 2, seg_words = None\<rparr>"
  have san: "sanitized
     [\<lparr>rs_text = ''a'', rs_start = Some 0, rs_end = Some 1, rs_words = None\<rparr>,
      \<lparr>rs_text = ''b'', rs_start = Some (1 / 20), rs_end = Some 2, rs_words = None\<rparr>] = [?a, ?b]"
    by (simp add: sanitized_def sanitizeSegment_def MIN_SEGMENT_DURATION_def Let_def)
  have a: "sweep_start None 0 ?a = 0" "sweep_end None 0 ?a [?b] = 1 / 20"
    by (simp_all add: sweep_start_def sweep_end_def MIN_SEGMENT_DURATION_def)
  have b: "sweep_start None (1 / 20) ?b = 1 / 20" "sweep_end None (1 / 20) ?b [] = 2"
    by (simp_all add: sweep_start_def sweep_end_def MIN_SEGMENT_DURATION_def)
  have r: "roundTo 0 2 = 0" "roundTo (1 / 20) 2 = 1 / 20" "roundTo 2 2 = 2"
    by (simp_all add: roundTo_def)
  have norm: "normalizeSegments
     [\<lparr>rs_text = ''a'', rs_start = Some 0, rs_end = Some 1, rs_words = None\<rparr>,
      \<lparr>rs_text = ''b'', rs_start = Some (1 / 20), rs_end = Some 2, rs_words = None\<rparr>] None =
     [\<lparr>seg_text = ''a'', seg_start = 0, seg_end = 1 / 20, seg_words = None\<rparr>,
      \<lparr>seg_text = ''b'', seg_start = 1 / 20, seg_end = 2, seg_words = None\<rparr>]"
    by (simp add: normalizeSegments_def safeDuration_def san sweep_Cons a b r)
  let ?overlay = "buildOverlay
     [\<lparr>cs_id = ''1'', cs_text = ''a'', cs_start = 0, cs_end = 1 / 20, cs_words = None\<rparr>,
      \<lparr>cs_id = ''2'', cs_text = ''b'', cs_start = 1 / 20, cs_end = 2, cs_words = None\<rparr>]"
  have h: "0 < length ?overlay \<and> Suc 0 < length ?overlay \<and>
      div_start (?overlay ! 0) \<le> div_end (?overlay ! 0) \<and>
      div_start (?overlay ! Suc 0) \<le> div_end (?overlay ! Suc 0) \<and>
      div_end (?overlay ! 0) = div_start (?overlay ! Suc 0) \<and>
      overlayFrameTime 30 0 + TIMING_BUFFER = div_end (?overlay ! 0)"
    by (simp add: buildOverlay_def buildCaption_def overlayFrameTime_def TIMING_BUFFER_def)
  from updateCaptions_display [of "overlayFrameTime 30 0" ?overlay] h
  have "div_display (updateCaptions (overlayFrameTime 30 0) ?overlay ! 0) \<and>
      div_display (updateCaptions (overlayFrameTime 30 0) ?overlay ! Suc 0)"
    by blast
  with norm show ?thesis by blast
qed

section \<open>Verification: getVisibleSubtitles\<close>

lemma wordStep_simps:
  "c_subtitle (wordStep adj acc w) = c_subtitle acc"
  "c_hasActiveWord (wordStep adj acc w) \<longleftrightarrow> c_hasActiveWord acc \<or> activeAt adj w"
  "c_earliestStart (wordStep adj acc w) = minStart (c_earliestStart acc) (w_start w)"
  "c_latestEnd (wordStep adj acc w) = maxEnd (c_latestEnd acc) (w_end w)"
  "c_score acc \<le> c_score (wordStep adj acc w)"
  "activeAt adj w \<Longrightarrow> c_score (wordStep adj acc w) = c_score acc + 10"
  by (simp_all add: wordStep_def activeAt_def Let_def)

lemma foldl_wordStep_subtitle:
  "c_subtitle (foldl (wordStep adj) acc ws) = c_subtitle acc"
  by (induction ws arbitrary: acc) (simp_all add: wordStep_simps)

lemma foldl_wordStep_flag:
  "c_hasActiveWord (foldl (wordStep adj) acc ws) \<longleftrightarrow>
     c_hasActiveWord acc \<or> (\<exists>w \<in> set ws. activeAt adj w)"
  by (induction ws arbitrary: acc) (auto simp: wordStep_simps)

lemma foldl_wordStep_score_mono:
  "c_score acc \<le> c_score (foldl (wordStep adj) acc ws)"
proof (induction ws arbitrary: acc)
  case Nil
  show ?case by simp
next
  case (Cons w ws)
  have "c_score acc \<le> c_score (wordStep adj acc w)" by (rule wordStep_simps)
  also have "\<dots> \<le> c_score (foldl (wordStep adj) (wordStep adj acc w) ws)" by (rule Cons.IH)
  finally show ?case by simp
qed

lemma foldl_wordStep_score_active:
  assumes "\<exists>w \<in> set ws. activeAt adj w"
  shows "c_score acc + 10 \<le> c_score (foldl (wordStep adj) acc ws)"
  using assms
proof (induction ws arbitrary: acc)
  case Nil
  then show ?case by simp
next
  case (Cons w ws)
  show ?case
  proof (cases "activeAt adj w")
    case True
    then have "c_score (wordStep adj acc w) = c_score acc + 10" by (rule wordStep_simps)
    with foldl_wordStep_score_mono [of "wordStep adj acc w" adj ws] show ?thesis by simp
  next
    case False
    with Cons.prems have "\<exists>w \<in> set ws. activeAt adj w" by simp
    then have "c_score (wordStep adj acc w) + 10 \<le> c_score (foldl (wordStep adj) (wordStep adj acc w) ws)"
      by (rule Cons.IH)
    moreover have "c_score acc \<le> c_score (wordStep adj acc w)" by (rule wordStep_simps)
    ultimately show ?thesis by simp
  qed
qed

lemma foldl_wordStep_earliest:
  "(\<forall>e0. c_earliestStart acc = Some e0 \<longrightarrow>
      (\<exists>e. c_earliestStart (foldl (wordStep adj) acc ws) = Some e \<and> e \<le> e0)) \<and>
   (\<forall>w \<in> set ws. \<exists>e. c_earliestStart (foldl (wordStep adj) acc ws) = Some e \<and> e \<le> w_start w)"
proof (induction ws arbitrary: acc)
  case Nil
  show ?case by simp
next
  case (Cons w ws)
  let ?acc = "wordStep adj acc w"
  obtain e1 where e1: "c_earliestStart ?acc = Some e1" "e1 \<le> w_start w"
    "\<And>e0. c_earliestStart acc = Some e0 \<Longrightarrow> e1 \<le> e0"
    by (cases "c_earliestStart acc") (auto simp: wordStep_simps minStart_def)
  from Cons.IH [of ?acc] e1(1)
  obtain e where e: "c_earliestStart (foldl (wordStep adj) ?acc ws) = Some e" "e \<le> e1"
    by blast
  from Cons.IH [of ?acc]
  have rest: "\<forall>w \<in> set ws. \<exists>e. c_earliestStart (foldl (wordStep adj) ?acc ws) = Some e \<and> e \<le> w_start w"
    by blast
  show ?case
    using e e1 rest by (auto intro: order_trans)
qed

lemma foldl_wordStep_latest:
  "(\<forall>l0. c_latestEnd acc = Some l0 \<longrightarrow>
      (\<exists>l. c_latestEnd (foldl (wordStep adj) acc ws) = Some l \<and> l0 \<le> l)) \<and>
   (\<forall>w \<in> set ws. \<exists>l. c_latestEnd (foldl (wordStep adj) acc ws) = Some l \<and> w_end w \<le> l)"
proof (induction ws arbitrary: acc)
  case Nil
  show ?case by simp
next
  case (Cons w ws)
  let ?acc = "wordStep adj acc w"
  obtain l1 where l1: "c_latestEnd ?acc = Some l1" "w_end w \<le> l1"
    "\<And>l0. c_latestEnd acc = Some l0 \<Longrightarrow> l0 \<le> l1"
    by (cases "c_latestEnd acc") (auto simp: wordStep_simps maxEnd_def)
  from Cons.IH [of ?acc] l1(1)
  obtain l where l: "c_latestEnd (foldl (wordStep adj) ?acc ws) = Some l" "l1 \<le> l"
    by blast
  from Cons.IH [of ?acc]
  have rest: "\<forall>w \<in> set ws. \<exists>l. c_latestEnd (foldl (wordStep adj) ?acc ws) = Some l \<and> w_end w \<le> l"
    by blast
  show ?case
    using l l1 rest by (auto intro: order_trans)
qed


lemma hasActiveWordAt_iff:
  "hasActiveWordAt currentTime sub \<longleftrightarrow>
     (\<exists>ws. sub_words sub = Some ws \<and> (\<exists>w \<in> set ws. activeAt (currentTime + TIMING_BUFFER) w))"
  by (cases "sub_words sub") (auto simp: hasActiveWordAt_def activeAt_def list_ex_iff)

lemma candidate_subtitle: "c_subtitle (candidate adj sub) = sub"
proof (cases "sub_words sub")
  case None
  then show ?thesis by (simp add: candidate_def initialCandidate_def Let_def)
next
  case (Some ws)
  show ?thesis
  proof (cases ws)
    case Nil
    with Some show ?thesis by (simp add: candidate_def initialCandidate_def Let_def)
  next
    case (Cons w ws')
    have "c_subtitle (foldl (wordStep adj) (initialCandidate sub) (w # ws')) = sub"
      by (simp only: foldl_wordStep_subtitle) (simp add: initialCandidate_def)
    then show ?thesis
      using Some Cons by (simp add: candidate_def Let_def split: option.splits)
  qed
qed

lemma candidate_plain_score:
  assumes "sub_words sub = None \<or> sub_words sub = Some []"
  shows "c_score (candidate adj sub) \<le> 50"
  using assms by (auto simp: candidate_def initialCandidate_def Let_def)

lemma candidate_words_flag:
  assumes "sub_words sub = Some (w # ws)"
  shows "c_hasActiveWord (candidate adj sub) \<longleftrightarrow> (\<exists>x \<in> set (w # ws). activeAt adj x)"
proof -
  let ?acc = "foldl (wordStep adj) (initialCandidate sub) (w # ws)"
  have acc: "c_hasActiveWord ?acc \<longleftrightarrow> (\<exists>x \<in> set (w # ws). activeAt adj x)"
    by (simp only: foldl_wordStep_flag) (simp add: initialCandidate_def)
  have "c_hasActiveWord (candidate adj sub) = c_hasActiveWord ?acc"
    using assms by (simp add: candidate_def Let_def split: option.splits)
  with acc show ?thesis by simp
qed

lemma candidate_active:
  assumes "sub_words sub = Some ws" "x \<in> set ws" "activeAt adj x"
  shows "c_hasActiveWord (candidate adj sub) \<and> 110 \<le> c_score (candidate adj sub)"
proof -
  from assms(2) obtain w ws' where ws: "ws = w # ws'" by (cases ws) auto
  let ?acc = "foldl (wordStep adj) (initialCandidate sub) (w # ws')"
  have ex: "\<exists>y \<in> set (w # ws'). activeAt adj y" using assms(2,3) ws by blast
  have flag: "c_hasActiveWord ?acc"
    using ex by (simp only: foldl_wordStep_flag) simp
  have "c_score (initialCandidate sub) + 10 \<le> c_score ?acc"
    using ex by (rule foldl_wordStep_score_active)
  then have score: "10 \<le> c_score ?acc" by (simp add: initialCandidate_def)
  from foldl_wordStep_earliest [of "initialCandidate sub" adj "w # ws'"] assms(2) ws
  obtain e where e: "c_earliestStart ?acc = Some e" "e \<le> w_start x" by blast
  from foldl_wordStep_latest [of "initialCandidate sub" adj "w # ws'"] assms(2) ws
  obtain l where l: "c_latestEnd ?acc = Some l" "w_end x \<le> l" by blast
  have range: "adj \<ge> e - TIMING_BUFFER" "adj \<le> l + 0.1"
    using e(2) l(2) assms(3) by (simp_all add: activeAt_def TIMING_BUFFER_def)
  have cand: "candidate adj sub =
      (let acc = ?acc\<lparr>c_score := c_score ?acc + 100\<rparr>
       in if adj - e \<ge> - TIMING_BUFFER \<and> adj - e < 0.5
          then acc\<lparr>c_score := c_score acc + 20\<rparr> else acc)"
    using assms(1) ws e(1) l(1) range flag
    by (simp add: candidate_def Let_def)
  show ?thesis
    using flag score by (simp add: cand Let_def)
qed

subsection \<open>The sort puts the best candidate first\<close>

lemma set_insertBy: "set (insertBy cmp x ys) = insert x (set ys)"
  by (induction ys) auto

lemma set_sortBy: "set (sortBy cmp xs) = set xs"
  by (induction xs) (simp_all add: sortBy_def set_insertBy)

lemma sortBy_Cons: "sortBy cmp (x # xs) = insertBy cmp x (sortBy cmp xs)"
  by (simp add: sortBy_def)

lemma ranksBefore_trans: "ranksBefore a b \<Longrightarrow> ranksBefore b c \<Longrightarrow> ranksBefore a c"
  by (auto simp: ranksBefore_def)

lemma compare_le_ranks: "compareCandidates x y \<le> 0 \<Longrightarrow> ranksBefore x y"
  by (auto simp: compareCandidates_def ranksBefore_def sgn_if split: if_splits)

lemma compare_gt_ranks: "\<not> compareCandidates x y \<le> 0 \<Longrightarrow> ranksBefore y x"
  by (auto simp: compareCandidates_def ranksBefore_def sgn_if split: if_splits)

lemma sorted_insertBy:
  assumes "sorted_wrt ranksBefore ys"
  shows "sorted_wrt ranksBefore (insertBy compareCandidates x ys)"
  using assms
proof (induction ys)
  case Nil
  show ?case by simp
next
  case (Cons y ys)
  show ?case
  proof (cases "compareCandidates x y \<le> 0")
    case True
    then have xy: "ranksBefore x y" by (rule compare_le_ranks)
    have "\<forall>z \<in> set ys. ranksBefore x z"
      using Cons.prems xy by (auto intro: ranksBefore_trans)
    with True xy Cons.prems show ?thesis by simp
  next
    case False
    then have yx: "ranksBefore y x" by (rule compare_gt_ranks)
    have "sorted_wrt ranksBefore (insertBy compareCandidates x ys)"
      using Cons.prems by (intro Cons.IH) simp
    moreover have "\<forall>z \<in> set (insertBy compareCandidates x ys). ranksBefore y z"
      using Cons.prems yx by (auto simp: set_insertBy)
    ultimately show ?thesis using False by simp
  qed
qed

lemma sorted_sortBy: "sorted_wrt ranksBefore (sortBy compareCandidates xs)"
  by (induction xs) (simp_all add: sortBy_Cons sorted_insertBy sortBy_def)

lemma ranksBefore_refl: "ranksBefore a a"
  by (simp add: ranksBefore_def)

lemma sortBy_head:
  assumes "sortBy compareCandidates xs = h # rest" "c \<in> set xs"
  shows "ranksBefore h c"
proof -
  have "sorted_wrt ranksBefore (h # rest)"
    using sorted_sortBy [of xs] assms(1) by simp
  moreover have "c \<in> set (h # rest)"
    using assms set_sortBy [of compareCandidates xs] by simp
  ultimately show ?thesis
    by (auto simp: ranksBefore_refl)
qed

text \<open>
  Claim C6. \<open>getVisibleSubtitles\<close> returns at most one caption. Whenever one of the
  candidates that survive \<open>.filter(candidate => candidate.score > 0)\<close> belongs to a
  caption with a word active at the buffered time \<open>currentTime + 0.05\<close>, the caption
  returned is one with a word active at that time; and every caption of the input with
  such a word does give such a candidate (its score is at least 110). A caption whose
  words are only about to appear has \<open>hasActiveWord = false\<close> and sorts after it; a
  caption without word timings that is in range has \<open>hasActiveWord = true\<close> but score 50,
  and sorts after it too. The timestamps are numbers: a word whose \<open>start\<close> is missing
  makes \<open>earliestStart\<close> \<open>NaN\<close>, which is outside this model. The proof compares and
  takes minima and maxima only, which floating point does as the reals do.
\<close>

theorem getVisibleSubtitles_active_first:
  "length (getVisibleSubtitles subtitles currentTime) \<le> 1 \<and>
   ((\<exists>c \<in> set (candidates subtitles currentTime).
        c_score c > 0 \<and> hasActiveWordAt currentTime (c_subtitle c)) \<longrightarrow>
    (\<exists>sub \<in> set subtitles. getVisibleSubtitles subtitles currentTime = [sub] \<and>
        hasActiveWordAt currentTime sub)) \<and>
   ((\<exists>sub \<in> set subtitles. hasActiveWordAt currentTime sub) \<longrightarrow>
    (\<exists>c \<in> set (candidates subtitles currentTime).
        c_score c > 0 \<and> hasActiveWordAt currentTime (c_subtitle c)))"
proof -
  define adj where "adj = currentTime + TIMING_BUFFER"
  define pool where "pool = filter (\<lambda>c. c_score c > 0) (map (candidate adj) subtitles)"
  have cands: "candidates subtitles currentTime = sortBy compareCandidates pool"
    by (simp add: candidates_def pool_def adj_def Let_def)
  have set_cands: "set (candidates subtitles currentTime) = set pool"
    by (simp add: cands set_sortBy)
  have len: "length (getVisibleSubtitles subtitles currentTime) \<le> 1"
    by (simp add: getVisibleSubtitles_def split: list.splits)
  have in_pool: "candidate adj sub \<in> set pool \<and> c_hasActiveWord (candidate adj sub) \<and>
      110 \<le> c_score (candidate adj sub)"
    if "sub \<in> set subtitles" "hasActiveWordAt currentTime sub" for sub
  proof -
    from that(2) obtain ws x where "sub_words sub = Some ws" "x \<in> set ws" "activeAt adj x"
      unfolding hasActiveWordAt_iff adj_def by blast
    then have "c_hasActiveWord (candidate adj sub) \<and> 110 \<le> c_score (candidate adj sub)"
      by (rule candidate_active)
    then show ?thesis using that(1) by (simp add: pool_def)
  qed
  have second: "\<exists>c \<in> set (candidates subtitles currentTime).
        c_score c > 0 \<and> hasActiveWordAt currentTime (c_subtitle c)"
    if "\<exists>sub \<in> set subtitles. hasActiveWordAt currentTime sub"
  proof -
    from that obtain sub where sub: "sub \<in> set subtitles" "hasActiveWordAt currentTime sub" by blast
    from in_pool [OF sub] have "candidate adj sub \<in> set (candidates subtitles currentTime)"
      "c_score (candidate adj sub) > 0"
      by (simp_all add: set_cands)
    with sub(2) show ?thesis by (auto simp: candidate_subtitle)
  qed
  have first: "\<exists>sub \<in> set subtitles. getVisibleSubtitles subtitles currentTime = [sub] \<and>
        hasActiveWordAt currentTime sub"
    if "\<exists>c \<in> set (candidates subtitles currentTime).
        c_score c > 0 \<and> hasActiveWordAt currentTime (c_subtitle c)"
  proof -
    from that obtain c where "c \<in> set pool" "hasActiveWordAt currentTime (c_subtitle c)"
      by (auto simp: set_cands)
    then obtain s0 where s0: "s0 \<in> set subtitles" "hasActiveWordAt currentTime s0"
      by (auto simp: pool_def candidate_subtitle)
    let ?c0 = "candidate adj s0"
    from in_pool [OF s0] have c0: "?c0 \<in> set pool" "c_hasActiveWord ?c0" "110 \<le> c_score ?c0"
      by simp_all
    then have "sortBy compareCandidates pool \<noteq> []"
      using set_sortBy [of compareCandidates pool] by auto
    then obtain h rest where h: "sortBy compareCandidates pool = h # rest"
      by (cases "sortBy compareCandidates pool") auto
    have "ranksBefore h ?c0" using h c0(1) by (rule sortBy_head)
    then have hflag: "c_hasActiveWord h" and hscore: "110 \<le> c_score h"
      using c0(2,3) by (auto simp: ranksBefore_def)
    have "h \<in> set pool" using h set_sortBy [of compareCandidates pool] by auto
    then obtain sub where sub: "sub \<in> set subtitles" "h = candidate adj sub"
      by (auto simp: pool_def)
    have "hasActiveWordAt currentTime sub"
    proof (cases "sub_words sub")
      case None
      then have "c_score h \<le> 50" unfolding sub(2) by (intro candidate_plain_score) simp
      with hscore show ?thesis by simp
    next
      case (Some ws)
      show ?thesis
      proof (cases ws)
        case Nil
        with Some have "c_score h \<le> 50" unfolding sub(2) by (intro candidate_plain_score) simp
        with hscore show ?thesis by simp
      next
        case (Cons w ws')
        with Some hflag have "\<exists>x \<in> set ws. activeAt adj x"
          unfolding sub(2) by (simp only: candidate_words_flag)
        with Some show ?thesis
          unfolding hasActiveWordAt_iff adj_def by blast
      qed
    qed
    moreover have "getVisibleSubtitles subtitles currentTime = [sub]"
      by (simp add: getVisibleSubtitles_def cands h sub(2) candidate_subtitle)
    ultimately show ?thesis using sub(1) by blast
  qed
  from len first second show ?thesis by blast
qed


theorem getVisibleSubtitles_active_first_witness:
  "hasActiveWordAt 2
     \<lparr>sub_text = ''hello'', sub_start = 19 / 10, sub_end = 5 / 2,
      sub_words = Some [\<lparr>w_word = ''hello'', w_start = 19 / 10, w_end = 5 / 2\<rparr>]\<rparr> \<and>
   \<not> hasActiveWordAt 2
     \<lparr>sub_text = ''next'', sub_start = 52 / 25, sub_end = 3,
      sub_words = Some [\<lparr>w_word = ''next'', w_start = 52 / 25, w_end = 3\<rparr>]\<rparr> \<and>
   map c_score (candidates
     [\<lparr>sub_text = ''next'', sub_start = 52 / 25, sub_end = 3,
       sub_words = Some [\<lparr>w_word = ''next'', w_start = 52 / 25, w_end = 3\<rparr>]\<rparr>,
      \<lparr>sub_text = ''hello'', sub_start = 19 / 10, sub_end = 5 / 2,
       sub_words = Some [\<lparr>w_word = ''hello'', w_start = 19 / 10, w_end = 5 / 2\<rparr>]\<rparr>] 2) = [130, 25] \<and>
   getVisibleSubtitles
     [\<lparr>sub_text = ''next'', sub_start = 52 / 25, sub_end = 3,
       sub_words = Some [\<lparr>w_word = ''next'', w_start = 52 / 25, w_end = 3\<rparr>]\<rparr>,
      \<lparr>sub_text = ''hello'', sub_start = 19 / 10, sub_end = 5 / 2,
       sub_words = Some [\<lparr>w_word = ''hello'', w_start = 19 / 10, w_end = 5 / 2\<rparr>]\<rparr>] 2 =
     [\<lparr>sub_text = ''hello'', sub_start = 19 / 10, sub_end = 5 / 2,
       sub_words = Some [\<lparr>w_word = ''hello'', w_start = 19 / 10, w_end = 5 / 2\<rparr>]\<rparr>]"
proof -
  let ?A = "\<lparr>sub_text = ''hello'', sub_start = 19 / 10, sub_end = 5 / 2,
      sub_words = Some [\<lparr>w_word = ''hello'', w_start = 19 / 10, w_end = 5 / 2\<rparr>]\<rparr>"
  let ?B = "\<lparr>sub_text = ''next'', sub_start = 52 / 25, sub_end = 3,
      sub_words = Some [\<lparr>w_word = ''next'', w_start = 52 / 25, w_end = 3\<rparr>]\<rparr>"
  have a: "hasActiveWordAt 2 ?A"
    by (simp add: hasActiveWordAt_def TIMING_BUFFER_def)
  have b: "\<not> hasActiveWordAt 2 ?B"
    by (simp add: hasActiveWordAt_def TIMING_BUFFER_def)
  have ca: "c_score (candidate (2 + TIMING_BUFFER) ?A) = 130"
    "c_hasActiveWord (candidate (2 + TIMING_BUFFER) ?A)"
    by (simp_all add: candidate_def wordStep_def initialCandidate_def minStart_def maxEnd_def
        TIMING_BUFFER_def Let_def)
  have cb: "c_score (candidate (2 + TIMING_BUFFER) ?B) = 25"
    "\<not> c_hasActiveWord (candidate (2 + TIMING_BUFFER) ?B)"
    by (simp_all add: candidate_def wordStep_def initialCandidate_def minStart_def maxEnd_def
        TIMING_BUFFER_def Let_def)
  have cmp: "\<not> compareCandidates (candidate (2 + TIMING_BUFFER) ?B)
      (candidate (2 + TIMING_BUFFER) ?A) \<le> 0"
    by (simp add: compareCandidates_def ca cb)
  have scores: "map c_score (candidates [?B, ?A] 2) = [130, 25]"
    by (simp add: candidates_def sortBy_def Let_def ca cb cmp)
  have ex: "\<exists>sub \<in> set [?B, ?A]. hasActiveWordAt 2 sub"
    using a by simp
  from getVisibleSubtitles_active_first [of "[?B, ?A]" 2] ex
  have "\<exists>sub \<in> set [?B, ?A]. getVisibleSubtitles [?B, ?A] 2 = [sub] \<and> hasActiveWordAt 2 sub"
    by blast
  with b have "getVisibleSubtitles [?B, ?A] 2 = [?A]"
    by auto
  with a b scores show ?thesis by blast
qed

section \<open>Verification: normalizeSegments applied to its own output\<close>











section \<open>Verification: progress of the render pipeline\<close>

lemma updatesFor_setProgress:
  "updatesFor exportId (setProgress exportId' progress stage message store) =
     updatesFor exportId store @
       (if exportId' = exportId
        then [\<lparr>ps_progress = progress, ps_stage = stage, ps_message = message\<rparr>] else [])"
  by (simp add: updatesFor_def setProgress_def Let_def)

lemma updatesFor_emptyStore: "updatesFor exportId emptyStore = []"
  by (simp add: updatesFor_def emptyStore_def)

subsection \<open>Runs in which no worker reports after the error\<close>

text \<open>
  Each stage reports nondecreasing values between 0 and 1, which the callbacks of the
  handler map into 10 to 10.2, 30 to 30.4 and 70 to 70.25; between the stages the handler
  publishes 0, 5, 30, 30, 70, 70, 95 and 100.
\<close>

lemma upTo_emptyStore: "upTo exportId bound emptyStore"
  by (simp add: upTo_def updatesFor_emptyStore)

lemma upTo_mono: "upTo exportId b store \<Longrightarrow> b \<le> c \<Longrightarrow> upTo exportId c store"
  by (auto simp: upTo_def list_all_iff)

lemma upTo_setProgress:
  assumes "upTo exportId b store" "b \<le> v"
  shows "upTo exportId v (setProgress exportId v stage message store)"
  using assms
  by (auto simp: upTo_def updatesFor_setProgress sorted_append list_all_iff)

lemma upTo_onFrameExtractionProgress:
  assumes "upTo i b store" "b \<le> 10 + p * 0.2"
  shows "upTo i (10 + p * 0.2) (onFrameExtractionProgress i p store)"
  unfolding onFrameExtractionProgress_def using assms by (rule upTo_setProgress)

lemma upTo_onOverlayProgress:
  assumes "upTo i b store" "b \<le> 30 + p * 0.4"
  shows "upTo i (30 + p * 0.4) (onOverlayProgress i p store)"
  unfolding onOverlayProgress_def using assms by (rule upTo_setProgress)

lemma upTo_onCompositionProgress:
  assumes "upTo i b store" "b \<le> 70 + p * 0.25"
  shows "upTo i (70 + p * 0.25) (onCompositionProgress i p store)"
  unfolding onCompositionProgress_def using assms by (rule upTo_setProgress)

lemma floor_less_imp_less:
  fixes x p :: real
  assumes "nat \<lfloor>x * 100\<rfloor> < nat \<lfloor>p * 100\<rfloor>"
  shows "x < p"
proof (rule ccontr)
  assume "\<not> x < p"
  then have "p * 100 \<le> x * 100" by simp
  then have "\<lfloor>p * 100\<rfloor> \<le> \<lfloor>x * 100\<rfloor>" by (rule floor_mono)
  then have "nat \<lfloor>p * 100\<rfloor> \<le> nat \<lfloor>x * 100\<rfloor>" by (rule nat_mono)
  with assms show False by linarith
qed

lemma frameProgress_le_1: "frameProgress currentFrame totalFrames = Some p \<Longrightarrow> p \<le> 1"
  by (auto simp: frameProgress_def split: if_splits)

lemma extraction_fold:
  assumes "upTo i (10 + x * 0.2) store" "x \<le> 1" "nat \<lfloor>x * 100\<rfloor> \<le> lastProgress"
  shows "\<exists>y \<le> 1. upTo i (10 + y * 0.2)
           (snd (foldl (extractionData totalFrames (onFrameExtractionProgress i))
                   (lastProgress, store) frames))"
  using assms
proof (induction frames arbitrary: x lastProgress store)
  case Nil
  then show ?case by auto
next
  case (Cons currentFrame frames)
  show ?case
  proof (cases "frameProgress currentFrame totalFrames")
    case None
    then have "extractionData totalFrames (onFrameExtractionProgress i) (lastProgress, store)
        currentFrame = (lastProgress, store)"
      by (simp add: extractionData_def)
    then show ?thesis
      using Cons.IH [OF Cons.prems] by simp
  next
    case (Some p)
    then have p1: "p \<le> 1" by (rule frameProgress_le_1)
    show ?thesis
    proof (cases "nat \<lfloor>p * 100\<rfloor> > lastProgress \<and> nat \<lfloor>p * 100\<rfloor> mod 5 = 0")
      case True
      then have step: "extractionData totalFrames (onFrameExtractionProgress i)
          (lastProgress, store) currentFrame =
          (nat \<lfloor>p * 100\<rfloor>, onFrameExtractionProgress i p store)"
        using Some by (simp add: extractionData_def Let_def)
      have "nat \<lfloor>x * 100\<rfloor> < nat \<lfloor>p * 100\<rfloor>"
        using True Cons.prems(3) by linarith
      then have "x < p" by (rule floor_less_imp_less)
      then have "10 + x * 0.2 \<le> 10 + p * 0.2" by simp
      with Cons.prems(1) have "upTo i (10 + p * 0.2) (onFrameExtractionProgress i p store)"
        by (rule upTo_onFrameExtractionProgress)
      from Cons.IH [OF this p1, of "nat \<lfloor>p * 100\<rfloor>"] show ?thesis
        by (simp add: step)
    next
      case False
      then have "extractionData totalFrames (onFrameExtractionProgress i) (lastProgress, store)
          currentFrame = (lastProgress, store)"
        using Some by (auto simp: extractionData_def Let_def)
      then show ?thesis
        using Cons.IH [OF Cons.prems] by simp
    qed
  qed
qed

lemma extractVideoFrames_upTo:
  assumes "upTo i 10 store"
  shows "upTo i (51 / 5) (snd (extractVideoFrames totalFrames frames exitOk
           (onFrameExtractionProgress i) store))"
proof -
  let ?store = "snd (foldl (extractionData totalFrames (onFrameExtractionProgress i))
      (0, store) frames)"
  from assms have "upTo i (10 + 0 * 0.2) store" by simp
  from extraction_fold [OF this, of 0 totalFrames frames]
  obtain y where y: "y \<le> 1" "upTo i (10 + y * 0.2) ?store" by auto
  have le: "10 + y * 0.2 \<le> 51 / 5" using y(1) by simp
  show ?thesis
  proof (cases exitOk)
    case True
    have "upTo i (10 + 1 * 0.2) (onFrameExtractionProgress i 1 ?store)"
      by (rule upTo_onFrameExtractionProgress [OF y(2)]) (use y(1) in simp)
    then show ?thesis using True by (simp add: extractVideoFrames_def Let_def)
  next
    case False
    with upTo_mono [OF y(2) le] show ?thesis by (simp add: extractVideoFrames_def Let_def)
  qed
qed

lemma framesCompleted_Suc:
  assumes "a \<le> b"
  shows "framesCompleted totalFrames onProgress a (Suc b) store =
     (let store = framesCompleted totalFrames onProgress a b store
      in if Suc b mod 10 = 0 then onProgress (real (Suc b) / real totalFrames) store else store)"
  using assms by (simp add: framesCompleted_def Let_def)

lemma framesCompleted_same: "framesCompleted totalFrames onProgress a a store = store"
  by (simp add: framesCompleted_def)

lemma framesCompleted_upTo:
  assumes "upTo i (30 + real a / real totalFrames * 0.4) store" "a \<le> b" "b \<le> totalFrames"
  shows "upTo i (30 + real b / real totalFrames * 0.4)
           (framesCompleted totalFrames (onOverlayProgress i) a b store)"
  using assms(2,3)
proof (induction b)
  case 0
  then show ?case using assms(1) by (simp add: framesCompleted_same)
next
  case (Suc b)
  show ?case
  proof (cases "a = Suc b")
    case True
    then show ?thesis using assms(1) by (simp add: framesCompleted_same)
  next
    case False
    then have ab: "a \<le> b" using Suc.prems by simp
    have bt: "b \<le> totalFrames" using Suc.prems by simp
    have IH: "upTo i (30 + real b / real totalFrames * 0.4)
        (framesCompleted totalFrames (onOverlayProgress i) a b store)"
      using ab bt by (rule Suc.IH)
    have le: "30 + real b / real totalFrames * 0.4 \<le> 30 + real (Suc b) / real totalFrames * 0.4"
      by (simp add: divide_right_mono)
    show ?thesis
    proof (cases "Suc b mod 10 = 0")
      case True
      have "upTo i (30 + real (Suc b) / real totalFrames * 0.4)
          (onOverlayProgress i (real (Suc b) / real totalFrames)
             (framesCompleted totalFrames (onOverlayProgress i) a b store))"
        by (rule upTo_onOverlayProgress [OF IH le])
      with True show ?thesis by (simp add: framesCompleted_Suc [OF ab] Let_def)
    next
      case False
      with upTo_mono [OF IH le] show ?thesis by (simp add: framesCompleted_Suc [OF ab] Let_def)
    qed
  qed
qed

lemma framesCompleted_from_0:
  assumes "upTo i 30 store" "b \<le> totalFrames"
  shows "upTo i (152 / 5) (framesCompleted totalFrames (onOverlayProgress i) 0 b store)"
proof -
  from assms(1) have "upTo i (30 + real 0 / real totalFrames * 0.4) store" by simp
  from framesCompleted_upTo [OF this _ assms(2)]
  have u: "upTo i (30 + real b / real totalFrames * 0.4)
      (framesCompleted totalFrames (onOverlayProgress i) 0 b store)" by simp
  have "real b / real totalFrames \<le> 1" using assms(2) by (auto simp: divide_le_eq_1)
  then have "30 + real b / real totalFrames * 0.4 \<le> 152 / 5" by simp
  with u show ?thesis by (rule upTo_mono)
qed


lemma composition_fold_0:
  assumes "upTo i (70 + x * 0.25) store" "x \<le> 1"
  shows "\<exists>y \<le> 1. upTo i (70 + y * 0.25)
           (snd (foldl (compositionData 0 (onCompositionProgress i))
                   (lastReportedProgress, store) frames))"
  using assms
proof (induction frames arbitrary: x store)
  case Nil
  then show ?case by auto
next
  case (Cons currentFrame frames)
  show ?case
  proof (cases "currentFrame = 0")
    case True
    then have "compositionData 0 (onCompositionProgress i) (lastReportedProgress, store)
        currentFrame = (lastReportedProgress, store)"
      by (simp add: compositionData_def)
    then show ?thesis using Cons.IH [OF Cons.prems] by simp
  next
    case False
    then have step: "compositionData 0 (onCompositionProgress i) (lastReportedProgress, store)
        currentFrame = (lastReportedProgress, onCompositionProgress i 1 store)"
      by (simp add: compositionData_def)
    have "70 + x * 0.25 \<le> 70 + 1 * 0.25" using Cons.prems(2) by simp
    with Cons.prems(1) have "upTo i (70 + 1 * 0.25) (onCompositionProgress i 1 store)"
      by (rule upTo_onCompositionProgress)
    from Cons.IH [OF this] show ?thesis by (simp add: step)
  qed
qed

lemma composition_fold:
  assumes "0 < totalFrames"
    and "upTo i (70 + min r 1 * 0.25) store" "nat \<lfloor>r * 100\<rfloor> \<le> lastReportedProgress"
  shows "\<exists>y \<le> 1. upTo i (70 + y * 0.25)
           (snd (foldl (compositionData totalFrames (onCompositionProgress i))
                   (lastReportedProgress, store) frames))"
  using assms(2,3)
proof (induction frames arbitrary: r lastReportedProgress store)
  case Nil
  then show ?case by (intro exI [of _ "min r 1"]) simp
next
  case (Cons currentFrame frames)
  let ?raw = "real currentFrame / real totalFrames"
  show ?case
  proof (cases "nat \<lfloor>?raw * 100\<rfloor> \<ge> lastReportedProgress + 5 \<or> min ?raw 1 \<ge> 1")
    case True
    then have step: "compositionData totalFrames (onCompositionProgress i)
        (lastReportedProgress, store) currentFrame =
        (nat \<lfloor>?raw * 100\<rfloor>, onCompositionProgress i (min ?raw 1) store)"
      using assms(1) by (simp add: compositionData_def Let_def)
    have "min r 1 \<le> min ?raw 1"
    proof (cases "min ?raw 1 \<ge> 1")
      case True
      then show ?thesis by simp
    next
      case False
      with True have "nat \<lfloor>r * 100\<rfloor> < nat \<lfloor>?raw * 100\<rfloor>"
        using Cons.prems(2) by linarith
      then have "r < ?raw" by (rule floor_less_imp_less)
      then show ?thesis by simp
    qed
    then have "70 + min r 1 * 0.25 \<le> 70 + min ?raw 1 * 0.25" by simp
    with Cons.prems(1) have "upTo i (70 + min ?raw 1 * 0.25)
        (onCompositionProgress i (min ?raw 1) store)"
      by (rule upTo_onCompositionProgress)
    from Cons.IH [OF this, of "nat \<lfloor>?raw * 100\<rfloor>"] show ?thesis
      by (simp add: step)
  next
    case False
    then have "compositionData totalFrames (onCompositionProgress i)
        (lastReportedProgress, store) currentFrame = (lastReportedProgress, store)"
      using assms(1) by (simp add: compositionData_def Let_def)
    then show ?thesis using Cons.IH [OF Cons.prems] by simp
  qed
qed

lemma composeFinalVideo_upTo:
  assumes "upTo i 70 store"
  shows "upTo i (281 / 4) (snd (composeFinalVideo totalFrames frames exitOk
           (onCompositionProgress i) store))"
proof -
  let ?store = "snd (foldl (compositionData totalFrames (onCompositionProgress i))
      (0, store) frames)"
  have "\<exists>y \<le> 1. upTo i (70 + y * 0.25) ?store"
  proof (cases "totalFrames = 0")
    case True
    from assms have "upTo i (70 + 0 * 0.25) store" by simp
    from composition_fold_0 [OF this, of 0 frames] True show ?thesis by simp
  next
    case False
    then have pos: "0 < totalFrames" by simp
    from assms have "upTo i (70 + min 0 1 * 0.25) store" by simp
    from composition_fold [OF pos this, of 0 frames] show ?thesis by simp
  qed
  then obtain y where y: "y \<le> 1" "upTo i (70 + y * 0.25) ?store" by auto
  have le: "70 + y * 0.25 \<le> 281 / 4" using y(1) by simp
  show ?thesis
  proof (cases exitOk)
    case True
    have "upTo i (70 + 1 * 0.25) (onCompositionProgress i 1 ?store)"
      by (rule upTo_onCompositionProgress [OF y(2)]) (use y(1) in simp)
    then show ?thesis using True by (simp add: composeFinalVideo_def Let_def)
  next
    case False
    with upTo_mono [OF y(2) le] show ?thesis by (simp add: composeFinalVideo_def Let_def)
  qed
qed


lemma last_updatesFor_setProgress:
  "last (updatesFor i (setProgress i progress stage message store)) =
     \<lparr>ps_progress = progress, ps_stage = stage, ps_message = message\<rparr>"
  by (simp add: updatesFor_setProgress)

lemma renderTry_returns:
  assumes "run_failure run = None"
  shows "renderTry run store =
     (True,
      setProgress (run_exportId run) 100 ''complete'' ''Video export complete''
        (setProgress (run_exportId run) 95 ''finalizing'' ''Finalizing video''
           (snd (composeFinalVideo (run_totalFrames run) (run_compositionFrames run) True
              (onCompositionProgress (run_exportId run))
              (setProgress (run_exportId run) 70 ''encoding'' ''Compositing final video''
                 (setProgress (run_exportId run) 70 ''caption rendering''
                    ''Caption overlays rendered''
                    (framesCompleted (run_totalFrames run) (onOverlayProgress (run_exportId run))
                       0 (run_totalFrames run)
                       (setProgress (run_exportId run) 30 ''caption rendering''
                          ''Rendering caption overlays''
                          (setProgress (run_exportId run) 30 ''video processing''
                             ''Video frames extracted''
                             (snd (extractVideoFrames (run_totalFrames run)
                                (run_extractionFrames run) True
                                (onFrameExtractionProgress (run_exportId run))
                                (setProgress (run_exportId run) 5 ''initialization''
                                   ''Extracting video frames''
                                   (setProgress (run_exportId run) 0 ''initialization''
                                      ''Starting render pipeline'' store)))))))))))))"
  by (simp add: renderTry_def Let_def assms extractVideoFrames_def composeFinalVideo_def)

lemma renderTry_throws:
  assumes "run_failure run = Some f"
  shows "\<not> fst (renderTry run store)"
  by (cases f) (simp_all add: renderTry_def Let_def assms extractVideoFrames_def
      composeFinalVideo_def)

lemma renderTry_upTo:
  assumes "run_overlayCompleted run \<le> run_totalFrames run"
  shows "upTo (run_exportId run) 100 (snd (renderTry run emptyStore))"
proof -
  define i where "i = run_exportId run"
  define total where "total = run_totalFrames run"
  define s1 where "s1 = setProgress i 0 ''initialization'' ''Starting render pipeline'' emptyStore"
  define s2 where "s2 = setProgress i 5 ''initialization'' ''Extracting video frames'' s1"
  define e where "e = (\<lambda>exitOk. snd (extractVideoFrames total (run_extractionFrames run)
      exitOk (onFrameExtractionProgress i) s2))"
  define s3 where "s3 = setProgress i 30 ''video processing'' ''Video frames extracted'' (e True)"
  define s4 where "s4 = setProgress i 30 ''caption rendering'' ''Rendering caption overlays'' s3"
  define s5f where "s5f = framesCompleted total (onOverlayProgress i) 0 (run_overlayCompleted run) s4"
  define s5 where "s5 = framesCompleted total (onOverlayProgress i) 0 total s4"
  define s6 where "s6 = setProgress i 70 ''caption rendering'' ''Caption overlays rendered'' s5"
  define s7 where "s7 = setProgress i 70 ''encoding'' ''Compositing final video'' s6"
  define c where "c = (\<lambda>exitOk. snd (composeFinalVideo total (run_compositionFrames run)
      exitOk (onCompositionProgress i) s7))"
  define s8 where "s8 = setProgress i 95 ''finalizing'' ''Finalizing video'' (c True)"
  define s9 where "s9 = setProgress i 100 ''complete'' ''Video export complete'' s8"
  note defs = i_def total_def s1_def s2_def e_def s3_def s4_def s5f_def s5_def s6_def s7_def
    c_def s8_def s9_def
  have u0: "upTo i 0 emptyStore" by (rule upTo_emptyStore)
  have u1: "upTo i 0 s1" unfolding s1_def by (rule upTo_setProgress [OF u0]) simp
  have u2: "upTo i 5 s2" unfolding s2_def by (rule upTo_setProgress [OF u1]) simp
  have u2': "upTo i 10 s2" by (rule upTo_mono [OF u2]) simp
  have ue: "upTo i (51 / 5) (e exitOk)" for exitOk
    unfolding e_def using u2' by (rule extractVideoFrames_upTo)
  have u3: "upTo i 30 s3" unfolding s3_def by (rule upTo_setProgress [OF ue]) simp
  have u4: "upTo i 30 s4" unfolding s4_def by (rule upTo_setProgress [OF u3]) simp
  have u5f: "upTo i (152 / 5) s5f"
    unfolding s5f_def using u4 assms by (simp add: total_def framesCompleted_from_0)
  have u5: "upTo i (152 / 5) s5"
    unfolding s5_def using u4 by (simp add: framesCompleted_from_0)
  have u6: "upTo i 70 s6" unfolding s6_def by (rule upTo_setProgress [OF u5]) simp
  have u7: "upTo i 70 s7" unfolding s7_def by (rule upTo_setProgress [OF u6]) simp
  have uc: "upTo i (281 / 4) (c exitOk)" for exitOk
    unfolding c_def using u7 by (rule composeFinalVideo_upTo)
  have u8: "upTo i 95 s8" unfolding s8_def by (rule upTo_setProgress [OF uc]) simp
  have u9: "upTo i 100 s9" unfolding s9_def by (rule upTo_setProgress [OF u8]) simp
  have m0: "upTo i 100 emptyStore" by (rule upTo_emptyStore)
  have m1: "upTo i 100 s1" by (rule upTo_mono [OF u1]) simp
  have me: "upTo i 100 (e False)" by (rule upTo_mono [OF ue]) simp
  have m3: "upTo i 100 s3" by (rule upTo_mono [OF u3]) simp
  have m4: "upTo i 100 s4" by (rule upTo_mono [OF u4]) simp
  have m5f: "upTo i 100 s5f" by (rule upTo_mono [OF u5f]) simp
  have m6: "upTo i 100 s6" by (rule upTo_mono [OF u6]) simp
  have mc: "upTo i 100 (c False)" by (rule upTo_mono [OF uc]) simp
  show ?thesis
  proof (cases "run_failure run")
    case None
    from u9 show ?thesis
      by (simp add: renderTry_returns [OF None] defs)
  next
    case (Some f)
    show ?thesis
    proof (cases f)
      case RequestFails
      with m0 Some show ?thesis by (simp add: renderTry_def Let_def defs)
    next
      case MkdirFramesFails
      with m1 Some show ?thesis by (simp add: renderTry_def Let_def defs)
    next
      case ExtractionFails
      with me Some show ?thesis
        by (simp add: renderTry_def Let_def defs extractVideoFrames_def)
    next
      case MkdirOverlaysFails
      with m3 Some show ?thesis
        by (simp add: renderTry_def Let_def defs extractVideoFrames_def)
    next
      case CreateBrowserFails
      with m4 Some show ?thesis
        by (simp add: renderTry_def Let_def defs extractVideoFrames_def)
    next
      case OverlayFails
      with m5f Some show ?thesis
        by (simp add: renderTry_def Let_def defs extractVideoFrames_def)
    next
      case BrowserCloseFails
      with m6 Some show ?thesis
        by (simp add: renderTry_def Let_def defs extractVideoFrames_def)
    next
      case CompositionFails
      with mc Some show ?thesis
        by (simp add: renderTry_def Let_def defs extractVideoFrames_def composeFinalVideo_def)
    next
      case SendFails
      with u9 Some show ?thesis
        by (simp add: renderTry_def Let_def defs extractVideoFrames_def composeFinalVideo_def)
    qed
  qed
qed

text \<open>
  Hence, in a run of a request that has a video and a payload, in which no worker completes
  a frame after the error has been published, the percents of the updates never decrease
  and the last update is 100, with the stage \<open>complete\<close> when nothing failed and \<open>error\<close>
  otherwise.
\<close>

lemma render_without_late_reports:
  assumes "run_hasVideo run" "run_hasPayload run"
    and "run_overlayLate run = 0" "run_overlayCompleted run \<le> run_totalFrames run"
  shows "sorted (map ps_progress (updatesFor (run_exportId run) (render run emptyStore)))"
    and "ps_progress (last (updatesFor (run_exportId run) (render run emptyStore))) = 100"
    and "ps_stage (last (updatesFor (run_exportId run) (render run emptyStore))) =
           (if run_failure run = None then ''complete'' else ''error'')"
proof -
  define i where "i = run_exportId run"
  define tried where "tried = renderTry run emptyStore"
  have u: "upTo i 100 (snd tried)"
    unfolding i_def tried_def using assms(4) by (rule renderTry_upTo)
  have render: "render run emptyStore =
      (if fst tried then snd tried
       else setProgress i 100 ''error'' (run_errorMessage run) (snd tried))"
    using assms(1-3)
    by (simp add: render_def Let_def tried_def i_def framesCompleted_same)
  have all: "sorted (map ps_progress (updatesFor i (render run emptyStore))) \<and>
      ps_progress (last (updatesFor i (render run emptyStore))) = 100 \<and>
      ps_stage (last (updatesFor i (render run emptyStore))) =
           (if run_failure run = None then ''complete'' else ''error'')"
  proof (cases "run_failure run")
    case None
    have t: "fst tried" unfolding tried_def by (simp add: renderTry_returns [OF None])
    have "\<exists>store. snd tried = setProgress i 100 ''complete'' ''Video export complete'' store"
      unfolding tried_def i_def by (simp only: renderTry_returns [OF None] snd_conv) blast
    then obtain store where
      store: "snd tried = setProgress i 100 ''complete'' ''Video export complete'' store"
      by blast
    have "sorted (map ps_progress (updatesFor i (snd tried)))"
      using u by (simp add: upTo_def)
    moreover have "last (updatesFor i (snd tried)) =
        \<lparr>ps_progress = 100, ps_stage = ''complete'', ps_message = ''Video export complete''\<rparr>"
      unfolding store by (rule last_updatesFor_setProgress)
    ultimately show ?thesis using t None by (simp add: render)
  next
    case (Some f)
    have t: "\<not> fst tried" unfolding tried_def using Some by (rule renderTry_throws)
    have "upTo i 100 (setProgress i 100 ''error'' (run_errorMessage run) (snd tried))"
      by (rule upTo_setProgress [OF u]) simp
    then have "sorted (map ps_progress (updatesFor i
        (setProgress i 100 ''error'' (run_errorMessage run) (snd tried))))"
      by (simp add: upTo_def)
    moreover have "last (updatesFor i
        (setProgress i 100 ''error'' (run_errorMessage run) (snd tried))) =
        \<lparr>ps_progress = 100, ps_stage = ''error'', ps_message = run_errorMessage run\<rparr>"
      by (rule last_updatesFor_setProgress)
    ultimately show ?thesis using t Some by (simp add: render)
  qed
  from all show "sorted (map ps_progress (updatesFor (run_exportId run) (render run emptyStore)))"
    and "ps_progress (last (updatesFor (run_exportId run) (render run emptyStore))) = 100"
    and "ps_stage (last (updatesFor (run_exportId run) (render run emptyStore))) =
           (if run_failure run = None then ''complete'' else ''error'')"
    unfolding i_def by blast+
qed

subsection \<open>A worker that reports after the error\<close>

text \<open>
  Claim C9 does not hold of the code. When one overlay worker fails, \<open>Promise.all\<close> rejects
  and the handler closes the browser and publishes 100 with the stage \<open>error\<close>, but the other
  workers have not been stopped: one that is writing a frame to disk completes it,
  increments \<open>completedFrames\<close> and, at a multiple of 10, reports through the callback of the
  handler. For a video of 40 frames in which 9 frames were completed before the error was
  published and one is completed after it, the updates of the job end with 100 \<open>error\<close>
  followed by a \<open>caption rendering\<close> update below 100: the percent decreases, and the last
  update is not 100. On the path without a failure no worker is left, since \<open>Promise.all\<close>
  waits for all of them.
\<close>

theorem render_reports_after_error:
  "map (\<lambda>s. (ps_stage s, ps_progress s < 100))
     (updatesFor ''job'' (render
        \<lparr>run_hasVideo = True, run_hasPayload = True, run_exportId = ''job'',
         run_failure = Some OverlayFails, run_errorMessage = ''Target closed'',
         run_totalFrames = 40, run_extractionFrames = [], run_overlayCompleted = 9,
         run_overlayLate = 1, run_compositionFrames = []\<rparr> emptyStore)) =
     [(''initialization'', True), (''initialization'', True), (''video processing'', True),
      (''video processing'', True), (''caption rendering'', True), (''error'', False),
      (''caption rendering'', True)] \<and>
   ps_progress (last (updatesFor ''job'' (render
        \<lparr>run_hasVideo = True, run_hasPayload = True, run_exportId = ''job'',
         run_failure = Some OverlayFails, run_errorMessage = ''Target closed'',
         run_totalFrames = 40, run_extractionFrames = [], run_overlayCompleted = 9,
         run_overlayLate = 1, run_compositionFrames = []\<rparr> emptyStore))) < 100 \<and>
   ps_progress (last (updatesFor ''job'' (render
        \<lparr>run_hasVideo = True, run_hasPayload = True, run_exportId = ''job'',
         run_failure = Some OverlayFails, run_errorMessage = ''Target closed'',
         run_totalFrames = 40, run_extractionFrames = [], run_overlayCompleted = 9,
         run_overlayLate = 1, run_compositionFrames = []\<rparr> emptyStore))) <
   ps_progress (last (butlast (updatesFor ''job'' (render
        \<lparr>run_hasVideo = True, run_hasPayload = True, run_exportId = ''job'',
         run_failure = Some OverlayFails, run_errorMessage = ''Target closed'',
         run_totalFrames = 40, run_extractionFrames = [], run_overlayCompleted = 9,
         run_overlayLate = 1, run_compositionFrames = []\<rparr> emptyStore))))"
proof -
  let ?run = "\<lparr>run_hasVideo = True, run_hasPayload = True, run_exportId = ''job'',
         run_failure = Some OverlayFails, run_errorMessage = ''Target closed'',
         run_totalFrames = 40, run_extractionFrames = [], run_overlayCompleted = 9,
         run_overlayLate = 1, run_compositionFrames = []\<rparr>"
  have before: "framesCompleted 40 (onOverlayProgress ''job'') 0 9 store = store" for store
    by (simp add: framesCompleted_def upt_rec)
  have late: "framesCompleted 40 (onOverlayProgress ''job'') 9 10 store =
      onOverlayProgress ''job'' (1 / 4) store" for store
    by (simp add: framesCompleted_def upt_rec)
  have updates: "updatesFor ''job'' (render ?run emptyStore) =
     [\<lparr>ps_progress = 0, ps_stage = ''initialization'', ps_message = ''Starting render pipeline''\<rparr>,
      \<lparr>ps_progress = 5, ps_stage = ''initialization'', ps_message = ''Extracting video frames''\<rparr>,
      \<lparr>ps_progress = 51 / 5, ps_stage = ''video processing'',
         ps_message = ''Extracting frames from video''\<rparr>,
      \<lparr>ps_progress = 30, ps_stage = ''video processing'', ps_message = ''Video frames extracted''\<rparr>,
      \<lparr>ps_progress = 30, ps_stage = ''caption rendering'',
         ps_message = ''Rendering caption overlays''\<rparr>,
      \<lparr>ps_progress = 100, ps_stage = ''error'', ps_message = ''Target closed''\<rparr>,
      \<lparr>ps_progress = 301 / 10, ps_stage = ''caption rendering'',
         ps_message = ''Rendering caption overlays''\<rparr>]"
    by (simp add: render_def renderTry_def extractVideoFrames_def before late
        onFrameExtractionProgress_def onOverlayProgress_def updatesFor_setProgress
        updatesFor_emptyStore Let_def)
  show ?thesis
    unfolding updates by simp
qed

end
